theory Spec2Isabelle
  imports Main "HOL-Library.Word"
begin

section \<open>Shared vocabulary\<close>

text \<open>
  The outcome of an operation that may park its caller on the condition variable or
  throw: \<open>Waits\<close> is the state in which the predicate handed to
  \<open>std::condition_variable::wait\<close> is false (the caller makes no progress until another
  thread changes the state), \<open>Throws\<close> carries the text of the \<open>std::runtime_error\<close>.
\<close>

datatype 'r result = Waits | Throws string | Done 'r

text \<open>Decimal rendering of an unsigned number, as \<open>operator<<\<close> on a stream prints it.\<close>

fun string_of_nat :: "nat \<Rightarrow> string" where
  "string_of_nat n =
     (if n < 10 then [''0123456789'' ! n]
      else string_of_nat (n div 10) @ [''0123456789'' ! (n mod 10)])"

declare string_of_nat.simps [simp del]

section \<open>SPSCBuffer (utils/SPSCBuffer.hpp)\<close>

text \<open>
  The fields of the class. \<open>mHead\<close>, \<open>mTail\<close>, \<open>mCapacity\<close> and \<open>mCount\<close> are
  \<open>uint32_t\<close>: they are natural numbers here and every increment and decrement is
  written with its wrap-around modulo \<open>2 ^ 32\<close>. Every member function but \<open>Clear\<close>
  runs under \<open>mMutx\<close>, so each is one atomic transition of the record.
\<close>

record 'a SPSCBuffer =
  mBuffer :: "'a list"
  mHead :: nat
  mTail :: nat
  mCapacity :: nat
  mCount :: nat
  mDrain :: bool

text \<open>
  \<open>SPSCBuffer(size_t size)\<close>: the vector holds \<open>size\<close> value-initialised elements
  (\<open>dflt\<close>), the capacity is \<open>size\<close> converted to \<open>uint32_t\<close>.
\<close>

definition SPSCBuffer_new :: "nat \<Rightarrow> 'a \<Rightarrow> 'a SPSCBuffer" where
  "SPSCBuffer_new sz dflt =
     \<lparr>mBuffer = replicate sz dflt, mHead = 0, mTail = 0,
      mCapacity = sz mod 2 ^ 32, mCount = 0, mDrain = False\<rparr>"

definition PushEntry :: "'a \<Rightarrow> 'a SPSCBuffer \<Rightarrow> (bool \<times> 'a SPSCBuffer) result" where
  "PushEntry entry s =
     (if \<not> (mCount s < mCapacity s) then Waits
      else Done (True,
        s\<lparr>mBuffer := (mBuffer s)[mHead s := entry],
          mHead := ((mHead s + 1) mod 2 ^ 32) mod mCapacity s,
          mCount := (mCount s + 1) mod 2 ^ 32\<rparr>))"

definition PushDone :: "'a SPSCBuffer \<Rightarrow> 'a SPSCBuffer" where
  "PushDone s = s\<lparr>mDrain := True\<rparr>"

text \<open>The \<open>for\<close> loop of \<open>PopEntries\<close>: \<open>n\<close> iterations remain, \<open>entries\<close> is the vector so far.\<close>

fun pop_loop :: "nat \<Rightarrow> 'a SPSCBuffer \<Rightarrow> 'a list \<Rightarrow> 'a list \<times> 'a SPSCBuffer" where
  "pop_loop 0 s entries = (entries, s)"
| "pop_loop (Suc n) s entries =
     pop_loop n
       (s\<lparr>mTail := ((mTail s + 1) mod 2 ^ 32) mod mCapacity s,
          mCount := (mCount s + 2 ^ 32 - 1) mod 2 ^ 32\<rparr>)
       (entries @ [mBuffer s ! mTail s])"

definition invalid_batch_msg :: "nat \<Rightarrow> nat \<Rightarrow> string" where
  "invalid_batch_msg batchSize cap =
     ''Got invalid value for batchSize. Got '' @ string_of_nat batchSize
       @ '' Max allowed value is '' @ string_of_nat cap"

definition PopEntries :: "nat \<Rightarrow> 'a SPSCBuffer \<Rightarrow> ('a list \<times> 'a SPSCBuffer) result" where
  "PopEntries batchSize s =
     (if batchSize > mCapacity s then Throws (invalid_batch_msg batchSize (mCapacity s))
      else
        let batchSize1 = (if batchSize = 0 then mCount s else batchSize) in
        if \<not> (mCount s \<ge> batchSize1 \<or> mDrain s) then Waits
        else
          let batchSize2 = (if mDrain s \<and> mCount s < batchSize1 then mCount s else batchSize1)
          in Done (pop_loop batchSize2 s []))"

definition Clear :: "'a SPSCBuffer \<Rightarrow> 'a SPSCBuffer" where
  "Clear s = s\<lparr>mHead := 0, mTail := 0, mCount := 0, mDrain := False\<rparr>"

text \<open>
  A call made on the channel, and the state it leaves: a call that waits or throws leaves
  the state as it found it.
\<close>

datatype 'a channel_op = Push 'a | PushDoneOp | Pop nat | ClearOp

fun channel_step :: "'a SPSCBuffer \<Rightarrow> 'a channel_op \<Rightarrow> 'a SPSCBuffer" where
  "channel_step s (Push x) = (case PushEntry x s of Done (_, s') \<Rightarrow> s' | _ \<Rightarrow> s)"
| "channel_step s PushDoneOp = PushDone s"
| "channel_step s (Pop n) = (case PopEntries n s of Done (_, s') \<Rightarrow> s' | _ \<Rightarrow> s)"
| "channel_step s ClearOp = Clear s"

definition channel_run :: "'a SPSCBuffer \<Rightarrow> 'a channel_op list \<Rightarrow> 'a SPSCBuffer" where
  "channel_run s ops = foldl channel_step s ops"

text \<open>The items held by the channel, oldest first: the \<open>mCount\<close> slots from \<open>mTail\<close> on.\<close>

definition buffered :: "'a SPSCBuffer \<Rightarrow> 'a list" where
  "buffered s = map (\<lambda>i. mBuffer s ! ((mTail s + i) mod mCapacity s)) [0 ..< mCount s]"

definition channel_inv :: "'a SPSCBuffer \<Rightarrow> bool" where
  "channel_inv s \<longleftrightarrow>
     mCount s \<le> mCapacity s \<and> mCapacity s < 2 ^ 32 \<and> length (mBuffer s) = mCapacity s \<and>
     (0 < mCapacity s \<longrightarrow>
        mHead s < mCapacity s \<and> mTail s < mCapacity s \<and>
        mHead s = (mTail s + mCount s) mod mCapacity s)"


section \<open>Integer conversions of the C++ code\<close>

text \<open>
  Conversion of an integer value to \<open>int\<close>/\<open>int32_t\<close> (two's complement, 32 bits), to
  \<open>uint32_t\<close> and to \<open>size_t\<close> (64 bits).
\<close>

definition to_int32 :: "int \<Rightarrow> int" where
  "to_int32 x = (x + 2 ^ 31) mod 2 ^ 32 - 2 ^ 31"

definition to_uint32 :: "int \<Rightarrow> int" where
  "to_uint32 x = x mod 2 ^ 32"

definition to_size_t :: "int \<Rightarrow> int" where
  "to_size_t x = x mod 2 ^ 64"

section \<open>DecoderCache (utils/DecoderCache.hpp)\<close>

text \<open>
  \<open>mCacheItems\<close> is the \<open>std::list\<close> of key/value pairs, most recently used first.
  \<open>mCacheMap\<close> maps a key to the iterator of its list node; a node is identified here by
  the key it stores, so the map is the set of keys it holds and the node of a key is the
  entry of \<open>mCacheItems\<close> with that key. \<open>mCapacity\<close> is an \<open>int\<close>.
\<close>

record ('k, 'v) DecoderCache =
  cache_mCapacity :: int
  mCacheItems :: "('k \<times> 'v) list"
  mCacheMap :: "'k set"

text \<open>
  The constructor takes a \<open>uint32_t\<close>, stores it in the \<open>int\<close> member and raises a value
  below 1 to 1.
\<close>

definition DecoderCache_new :: "nat \<Rightarrow> ('k, 'v) DecoderCache" where
  "DecoderCache_new capacity =
     \<lparr>cache_mCapacity = (if capacity mod 2 ^ 32 < 1 then 1 else to_int32 (int (capacity mod 2 ^ 32))),
      mCacheItems = [], mCacheMap = {}\<rparr>"

text \<open>\<open>list.splice(begin, list, it)\<close>: the node of \<open>key\<close> is unlinked and relinked at the front.\<close>

definition splice_front :: "'k \<Rightarrow> ('k \<times> 'v) list \<Rightarrow> ('k \<times> 'v) list" where
  "splice_front key items =
     (case find (\<lambda>p. fst p = key) items of
        None \<Rightarrow> items
      | Some node \<Rightarrow> node # remove1 node items)"

text \<open>\<open>it->second->second = value\<close>: the value stored in the node of \<open>key\<close> is overwritten.\<close>

fun assign_node :: "'k \<Rightarrow> 'v \<Rightarrow> ('k \<times> 'v) list \<Rightarrow> ('k \<times> 'v) list" where
  "assign_node key v [] = []"
| "assign_node key v (p # ps) =
     (if fst p = key then (key, v) # ps else p # assign_node key v ps)"

definition GetDecoder :: "'k \<Rightarrow> ('k, 'v) DecoderCache \<Rightarrow> 'v option \<times> ('k, 'v) DecoderCache" where
  "GetDecoder key c =
     (if key \<notin> mCacheMap c then (None, c)
      else
        let c' = c\<lparr>mCacheItems := splice_front key (mCacheItems c)\<rparr>
        in (map_option snd (find (\<lambda>p. fst p = key) (mCacheItems c')), c'))"

text \<open>
  \<open>mCacheItems.size() == mCapacity\<close> compares a \<open>size_t\<close> with an \<open>int\<close>: the \<open>int\<close> is
  converted to \<open>size_t\<close>. \<open>back()\<close> and \<open>pop_back()\<close> are \<open>last\<close> and \<open>butlast\<close>; they are
  reached on a non-empty list only, since the constructor never leaves a capacity of 0.
\<close>

definition PushDecoder ::
  "'k \<Rightarrow> 'v \<Rightarrow> ('k, 'v) DecoderCache \<Rightarrow> 'v option \<times> ('k, 'v) DecoderCache" where
  "PushDecoder key v c =
     (if key \<in> mCacheMap c then
        (None, c\<lparr>mCacheItems := splice_front key (assign_node key v (mCacheItems c))\<rparr>)
      else
        let (decoder, c1) =
              (if to_size_t (int (length (mCacheItems c))) = to_size_t (cache_mCapacity c) then
                 (Some (snd (last (mCacheItems c))),
                  c\<lparr>mCacheMap := mCacheMap c - {fst (last (mCacheItems c))},
                    mCacheItems := butlast (mCacheItems c)\<rparr>)
               else (None, c))
        in (decoder,
            c1\<lparr>mCacheItems := (key, v) # mCacheItems c1,
               mCacheMap := insert key (mCacheMap c1)\<rparr>))"

definition RemoveElement :: "('k, 'v) DecoderCache \<Rightarrow> 'v option \<times> ('k, 'v) DecoderCache" where
  "RemoveElement c =
     (if mCacheItems c = [] then (None, c)
      else (Some (snd (last (mCacheItems c))),
            c\<lparr>mCacheMap := mCacheMap c - {fst (last (mCacheItems c))},
              mCacheItems := butlast (mCacheItems c)\<rparr>))"

text \<open>
  The consistency of the two containers: the map holds exactly the keys of the list, no
  key occurs twice, and the capacity is an \<open>int\<close> other than 0.
\<close>

definition cache_inv :: "('k, 'v) DecoderCache \<Rightarrow> bool" where
  "cache_inv c \<longleftrightarrow>
     mCacheMap c = fst ` set (mCacheItems c) \<and> distinct (map fst (mCacheItems c)) \<and>
     cache_mCapacity c \<noteq> 0 \<and> - (2 ^ 31) \<le> cache_mCapacity c \<and> cache_mCapacity c < 2 ^ 31"

section \<open>The collaborators: NvDecoder and FFmpegDemuxer\<close>

text \<open>
  \<open>PacketData\<close> with the fields the seek engine and the decode loop read; \<open>bsl_data\<close> is
  the payload pointer (0 is \<open>NULL\<close>), \<open>bsl\<close> the payload size. A decoded frame is its
  presentation timestamp and the pointer of its buffer (\<open>extBuf->data()\<close>).
\<close>

record PacketData =
  bsl_data :: nat
  bsl :: int
  pts :: int
  key :: int

definition empty_PacketData :: PacketData where
  "empty_PacketData = \<lparr>bsl_data = 0, bsl = 0, pts = 0, key = 0\<rparr>"

record DecodedFrame =
  timestamp :: int
  extBuf_data :: nat

datatype CUvideopacketflags = CUVID_PKT_ENDOFSTREAM | CUVID_PKT_TIMESTAMP | CUVID_PKT_DISCONTINUITY

text \<open>The packet handed to the parser; the flag word is the set of its bits.\<close>

record CUVIDSOURCEDATAPACKET =
  flags :: "CUvideopacketflags set"
  payload_size :: int
  payload :: nat
  packet_timestamp :: int

text \<open>
  The hardware parser is a parameter \<open>hw\<close> of the model: from its own state and a packet it
  yields the frames the display callback delivers during \<open>cuvidParseVideoData\<close>, in order, and
  its next state. \<open>frames_ready\<close> are the frames of the last \<open>Decode\<close> call that were not
  fetched yet (\<open>m_nDecodedFrame\<close> is their number), \<open>m_LockedFrames\<close> the buffers handed out
  by \<open>GetLockedFrame\<close> and not unlocked since, \<open>parsed\<close> the packets given to the parser so
  far, oldest first.
\<close>

type_synonym 'p parser = "'p \<Rightarrow> CUVIDSOURCEDATAPACKET \<Rightarrow> DecodedFrame list \<times> 'p"

record 'p NvDecoder =
  hParser :: 'p
  frames_ready :: "DecodedFrame list"
  m_LockedFrames :: "nat list"
  parsed :: "CUVIDSOURCEDATAPACKET list"
  bWaitForSessionWarmUp :: bool
  sessionInitCounter :: nat

definition make_packet ::
  "nat \<Rightarrow> int \<Rightarrow> CUvideopacketflags set \<Rightarrow> int \<Rightarrow> CUVIDSOURCEDATAPACKET" where
  "make_packet pData nSize nFlags nTimestamp =
     \<lparr>flags = (nFlags \<union> {CUVID_PKT_TIMESTAMP}) \<union>
        (if (pData = 0 \<or> nSize = 0) \<and> nFlags \<noteq> {CUVID_PKT_DISCONTINUITY}
         then {CUVID_PKT_ENDOFSTREAM} else {}),
      payload_size = nSize, payload = pData, packet_timestamp = nTimestamp\<rparr>"

definition Decode ::
  "'p parser \<Rightarrow> nat \<Rightarrow> int \<Rightarrow> CUvideopacketflags set \<Rightarrow> int \<Rightarrow> 'p NvDecoder
     \<Rightarrow> nat \<times> 'p NvDecoder" where
  "Decode hw pData nSize nFlags nTimestamp d =
     (let packet = make_packet pData nSize nFlags nTimestamp;
          (frames, p') = hw (hParser d) packet
      in (length frames,
          d\<lparr>hParser := p', frames_ready := frames, parsed := parsed d @ [packet]\<rparr>))"

text \<open>
  \<open>NvDecoder::GetFrame\<close> and \<open>GetLockedFrame\<close> return the pointer and the timestamp of the
  next frame; with no frame left they return \<open>NULL\<close> and leave the caller's timestamp (0)
  untouched.
\<close>

definition NvDecoder_GetFrame :: "'p NvDecoder \<Rightarrow> (nat \<times> int) \<times> 'p NvDecoder" where
  "NvDecoder_GetFrame d =
     (case frames_ready d of
        [] \<Rightarrow> ((0, 0), d)
      | f # fs \<Rightarrow> ((extBuf_data f, timestamp f), d\<lparr>frames_ready := fs\<rparr>))"

definition GetLockedFrame :: "'p NvDecoder \<Rightarrow> (nat \<times> int) \<times> 'p NvDecoder" where
  "GetLockedFrame d =
     (case frames_ready d of
        [] \<Rightarrow> ((0, 0), d)
      | f # fs \<Rightarrow>
          ((extBuf_data f, timestamp f),
           d\<lparr>frames_ready := fs, m_LockedFrames := m_LockedFrames d @ [extBuf_data f]\<rparr>))"

text \<open>\<open>NvDecoder::UnlockFrame(uint8_t*)\<close>: the first locked entry equal to the pointer is released.\<close>

definition NvDecoder_UnlockFrame :: "nat \<Rightarrow> 'p NvDecoder \<Rightarrow> 'p NvDecoder" where
  "NvDecoder_UnlockFrame pFrame d = d\<lparr>m_LockedFrames := remove1 pFrame (m_LockedFrames d)\<rparr>"

text \<open>
  The demuxer over one file. \<open>video_packets\<close> are the video packets of the file in the
  order \<open>Demux\<close> hands them out and \<open>unread\<close> those not handed out yet. The index table and
  the FFmpeg calls on it are fields: \<open>index_entry i\<close> is the timestamp of
  \<open>avformat_index_get_entry(stream, i)\<close> (\<open>None\<close> for \<open>NULL\<close>), \<open>index_search_timestamp\<close> is
  \<open>av_index_search_timestamp\<close> with \<open>AVSEEK_FLAG_BACKWARD\<close>, \<open>seek_frame ts\<close> is the number of
  video packets before the position \<open>av_seek_frame\<close> reaches for \<open>ts\<close> (\<open>None\<close> when it
  fails). \<open>seeks\<close> lists the frame indices \<open>Seek\<close> was called with.
\<close>

record FFmpegDemuxer =
  video_packets :: "PacketData list"
  unread :: "PacketData list"
  container :: string
  is_seekable :: bool
  index_entry :: "int \<Rightarrow> int option"
  index_search_timestamp :: "int \<Rightarrow> int"
  FrameToPts :: "int \<Rightarrow> int"
  dts_to_frame_number :: "int \<Rightarrow> int"
  seek_frame :: "int \<Rightarrow> nat option"
  seeks :: "nat list"

datatype seek_error =
    SeekNotSupported
  | FailedToSeek
  | NullIndexEntry
  | PendingIndexOutOfRange

text \<open>
  \<open>FFmpegDemuxer::Demux\<close>: the next video packet, or \<open>None\<close> at the end of the file (the
  call returns false after setting the byte count to 0).
\<close>

definition Demux :: "FFmpegDemuxer \<Rightarrow> PacketData option \<times> FFmpegDemuxer" where
  "Demux dm =
     (case unread dm of
        [] \<Rightarrow> (None, dm)
      | p # ps \<Rightarrow> (Some p, dm\<lparr>unread := ps\<rparr>))"

text \<open>
  \<open>FFmpegDemuxer::Seek(uint32_t)\<close>. Reading the timestamp of a missing index entry is a
  null dereference, reported as \<open>NullIndexEntry\<close>.
\<close>

definition Seek :: "nat \<Rightarrow> FFmpegDemuxer \<Rightarrow> seek_error + FFmpegDemuxer" where
  "Seek frameIdx dm =
     (if \<not> is_seekable dm then Inl SeekNotSupported
      else
        case index_entry dm 0 of
          None \<Rightarrow> Inl NullIndexEntry
        | Some pts_offset \<Rightarrow>
            (case (if container dm = ''mov'' \<or> container dm = ''flv'' \<or>
                      container dm = ''matroska,webm''
                   then Some (FrameToPts dm (to_int32 (int frameIdx)))
                   else index_entry dm (to_int32 (int frameIdx))) of
               None \<Rightarrow> Inl NullIndexEntry
             | Some iSeekTargetPTS \<Rightarrow>
                 (case seek_frame dm (iSeekTargetPTS - pts_offset) of
                    None \<Rightarrow> Inl FailedToSeek
                  | Some n \<Rightarrow>
                      Inr (dm\<lparr>unread := drop n (video_packets dm),
                              seeks := seeks dm @ [frameIdx]\<rparr>))))"

section \<open>SeekUtils (inc/SeekUtils.hpp, src/SeekUtils.cpp)\<close>

text \<open>
  The members of the class. \<open>mPreviousTargetIndex\<close> and \<open>mTargetFramePTS\<close> are \<open>int32_t\<close>,
  \<open>mFramesDecodedTillNow\<close> is \<open>uint32_t\<close>: integers here, converted at every assignment.
  The local \<open>targetValue\<close> is an \<open>int\<close> that the loop only decrements; it is an unbounded
  integer here (a stream holds fewer than \<open>2 ^ 31\<close> frames).
\<close>

record 'p SeekUtils =
  mDemuxer :: FFmpegDemuxer
  mDecoder :: "'p NvDecoder"
  mTargetFrames :: "DecodedFrame list"
  mPendingFrames :: "DecodedFrame list"
  mPreviousTargetIndex :: int
  mFrameSizeInBytes :: int
  mFramesDecodedTillNow :: int
  mbDiscontinuityFlag :: bool
  mTargetFramePTS :: int
  mPreviouslyDecodedFramesPTS :: "int list"
  mbEOSreached :: bool
  bIsSeekDirectionBackwards :: bool
  bSeekToIndexSet :: bool

definition INVALID_INDEX_ENTRY :: int where
  "INVALID_INDEX_ENTRY = - 2"

definition SeekUtils_new :: "FFmpegDemuxer \<Rightarrow> 'p NvDecoder \<Rightarrow> 'p SeekUtils" where
  "SeekUtils_new demuxer decoder =
     \<lparr>mDemuxer = demuxer, mDecoder = decoder, mTargetFrames = [], mPendingFrames = [],
      mPreviousTargetIndex = - 1, mFrameSizeInBytes = 0, mFramesDecodedTillNow = 0,
      mbDiscontinuityFlag = False, mTargetFramePTS = 0, mPreviouslyDecodedFramesPTS = [],
      mbEOSreached = False, bIsSeekDirectionBackwards = False, bSeekToIndexSet = False\<rparr>"

text \<open>\<open>void setEOS(bool newVal) { mbEOSreached = true; }\<close>\<close>

definition setEOS :: "bool \<Rightarrow> 'p SeekUtils \<Rightarrow> 'p SeekUtils" where
  "setEOS newVal s = s\<lparr>mbEOSreached := True\<rparr>"

definition IsEOSReached :: "'p SeekUtils \<Rightarrow> bool" where
  "IsEOSReached s = mbEOSreached s"

definition SeekUtils_GetFrame :: "bool \<Rightarrow> 'p SeekUtils \<Rightarrow> DecodedFrame \<times> 'p SeekUtils" where
  "SeekUtils_GetFrame bLockFrame s =
     (let ((tupData, tupTimestamp), d) =
            (if bLockFrame then GetLockedFrame (mDecoder s) else NvDecoder_GetFrame (mDecoder s))
      in (\<lparr>timestamp = tupTimestamp, extBuf_data = tupData\<rparr>, s\<lparr>mDecoder := d\<rparr>))"

definition UnlockFrames :: "'p SeekUtils \<Rightarrow> 'p SeekUtils" where
  "UnlockFrames s =
     s\<lparr>mDecoder := fold (\<lambda>frame d. NvDecoder_UnlockFrame (extBuf_data frame) d)
                        (mTargetFrames s) (mDecoder s)\<rparr>"

definition UnlockFrame :: "DecodedFrame \<Rightarrow> 'p SeekUtils \<Rightarrow> 'p SeekUtils" where
  "UnlockFrame decframe s =
     (if extBuf_data decframe \<noteq> 0
      then s\<lparr>mDecoder := NvDecoder_UnlockFrame (extBuf_data decframe) (mDecoder s)\<rparr>
      else s)"

text \<open>The loop \<open>for (i = 0; i < numDecodedFrames; i++) GetFrame(false);\<close>\<close>

fun drain_frames :: "nat \<Rightarrow> 'p SeekUtils \<Rightarrow> 'p SeekUtils" where
  "drain_frames 0 s = s"
| "drain_frames (Suc n) s = drain_frames n (snd (SeekUtils_GetFrame False s))"

definition ClearState :: "'p parser \<Rightarrow> bool \<Rightarrow> 'p SeekUtils \<Rightarrow> seek_error + 'p SeekUtils" where
  "ClearState hw bForceEOS s =
     (let s1 = UnlockFrames s;
          s2 = s1\<lparr>mTargetFrames := [], mPendingFrames := [],
                  mPreviouslyDecodedFramesPTS := [], mPreviousTargetIndex := - 1,
                  mFramesDecodedTillNow := 0, mFrameSizeInBytes := 0, mTargetFramePTS := 0,
                  mbDiscontinuityFlag := False, bSeekToIndexSet := False\<rparr>
      in case Seek 0 (mDemuxer s2) of
           Inl e \<Rightarrow> Inl e
         | Inr dm \<Rightarrow>
             (let s3 = s2\<lparr>mDemuxer := dm,
                          mDecoder := (mDecoder s2)\<lparr>bWaitForSessionWarmUp := True,
                                                    sessionInitCounter := 0\<rparr>\<rparr>
              in if mbEOSreached s3 \<or> bForceEOS then
                   (let (numDecodedFrames, d) =
                          Decode hw (bsl_data empty_PacketData) (bsl empty_PacketData) {} 0
                            (mDecoder s3);
                        s4 = drain_frames numDecodedFrames (s3\<lparr>mDecoder := d\<rparr>)
                    in Inr (s4\<lparr>mbEOSreached := False\<rparr>))
                 else Inr s3))"

text \<open>
  \<open>GetKeyNearestKeyFrameIndexForTarget\<close>. The results are \<open>int\<close>; the argument of
  \<open>FrameToPts\<close> and of \<open>avformat_index_get_entry\<close> is an \<open>int\<close> as well. In the branch of
  the flv and matroska containers the entry is read without a null check.
\<close>

definition GetKeyNearestKeyFrameIndexForTarget :: "FFmpegDemuxer \<Rightarrow> int \<Rightarrow> seek_error + int" where
  "GetKeyNearestKeyFrameIndexForTarget dm idx =
     (if container dm = ''flv'' \<or> container dm = ''matroska,webm'' then
        (let targetpts = to_int32 (FrameToPts dm (to_int32 idx));
             KeyFrameIndex = index_search_timestamp dm targetpts
         in case index_entry dm KeyFrameIndex of
              None \<Rightarrow> Inl NullIndexEntry
            | Some entry_timestamp \<Rightarrow> Inr (to_int32 (dts_to_frame_number dm entry_timestamp)))
      else
        (case index_entry dm (to_int32 idx) of
           None \<Rightarrow> Inr INVALID_INDEX_ENTRY
         | Some entry_timestamp \<Rightarrow>
             Inr (index_search_timestamp dm (to_int32 entry_timestamp))))"

definition ShouldSeek :: "FFmpegDemuxer \<Rightarrow> int \<Rightarrow> int \<Rightarrow> seek_error + (bool \<times> int)" where
  "ShouldSeek dm previous_target current_target =
     (case GetKeyNearestKeyFrameIndexForTarget dm current_target of
        Inl e \<Rightarrow> Inl e
      | Inr rightindex \<Rightarrow>
          if previous_target = - 1 then Inr (True, rightindex)
          else
            (case GetKeyNearestKeyFrameIndexForTarget dm previous_target of
               Inl e \<Rightarrow> Inl e
             | Inr leftindex \<Rightarrow>
                 if leftindex = INVALID_INDEX_ENTRY \<or> rightindex = INVALID_INDEX_ENTRY
                 then Inr (False, INVALID_INDEX_ENTRY)
                 else if leftindex = rightindex then Inr (False, rightindex)
                 else if rightindex - previous_target < 4 then Inr (False, rightindex)
                 else Inr (True, rightindex)))"

text \<open>The loop that moves the rest of a decode call's frames to \<open>mPendingFrames\<close>.\<close>

fun push_pending :: "nat \<Rightarrow> 'p SeekUtils \<Rightarrow> 'p SeekUtils" where
  "push_pending 0 s = s"
| "push_pending (Suc n) s =
     (let (frame, s1) = SeekUtils_GetFrame True s
      in push_pending n (s1\<lparr>mPendingFrames := mPendingFrames s1 @ [frame]\<rparr>))"

text \<open>
  The loop over the frames of one decode call. The first argument is the number of
  iterations left, \<open>numDecodedFrames - i\<close>; \<open>mCurrentCountOfDecodedFrames\<close> is \<open>i + 1\<close> after its
  increment, so it is never 0 and \<open>numDecodedFrames - mCurrentCountOfDecodedFrames\<close> is the
  number of iterations left after the current one. The result is \<open>bTargetFrameFound\<close>,
  \<open>targetValue\<close> and the state.
\<close>

fun frame_loop :: "nat \<Rightarrow> int \<Rightarrow> 'p SeekUtils \<Rightarrow> bool \<times> int \<times> 'p SeekUtils" where
  "frame_loop 0 targetValue s = (False, targetValue, s)"
| "frame_loop (Suc r) targetValue s =
     (let (decodedframe, s1) = SeekUtils_GetFrame True s in
      if timestamp decodedframe \<in> set (mPreviouslyDecodedFramesPTS s1) then
        frame_loop r targetValue
          ((UnlockFrame decodedframe s1)
             \<lparr>mFramesDecodedTillNow := to_uint32 (mFramesDecodedTillNow s1 - 1)\<rparr>)
      else
        (let s2 = s1\<lparr>mPreviouslyDecodedFramesPTS :=
                       mPreviouslyDecodedFramesPTS s1 @ [timestamp decodedframe]\<rparr> in
         if timestamp decodedframe < mTargetFramePTS s2 then
           frame_loop r targetValue
             ((UnlockFrame decodedframe s2)
                \<lparr>mFramesDecodedTillNow := to_uint32 (mFramesDecodedTillNow s2 - 1)\<rparr>)
         else if targetValue = 0 then
           (True, targetValue,
            push_pending r (s2\<lparr>mTargetFrames := mTargetFrames s2 @ [decodedframe]\<rparr>))
         else frame_loop r (targetValue - 1) (UnlockFrame decodedframe s2)))"

text \<open>
  One pass of the body of \<open>while (!bTargetFrameFound)\<close> after the call of \<open>Demux\<close>, for
  the packet and the key-frame flag the call left.
\<close>

definition decode_packet ::
  "'p parser \<Rightarrow> PacketData \<Rightarrow> bool \<Rightarrow> int \<Rightarrow> 'p SeekUtils \<Rightarrow> bool \<times> int \<times> 'p SeekUtils" where
  "decode_packet hw packetdata isKeyFrame targetValue s =
     (let s1 = (if isKeyFrame \<and> mbDiscontinuityFlag s
                then s\<lparr>mTargetFramePTS := to_int32 (pts packetdata)\<rparr> else s);
          s2 = (if mbDiscontinuityFlag s1 then
                  (let (numDecodedFrames, d) =
                         Decode hw (bsl_data empty_PacketData) (bsl empty_PacketData)
                           {CUVID_PKT_DISCONTINUITY} (pts empty_PacketData) (mDecoder s1)
                   in (drain_frames numDecodedFrames (s1\<lparr>mDecoder := d\<rparr>))
                        \<lparr>mPendingFrames := [], mbDiscontinuityFlag := False\<rparr>)
                else s1);
          eos = (bsl packetdata = 0 \<and> bsl_data packetdata = 0);
          flag = (if eos then {CUVID_PKT_ENDOFSTREAM} else {CUVID_PKT_TIMESTAMP});
          s3 = (if eos then s2\<lparr>mbEOSreached := True\<rparr> else s2);
          (numDecodedFrames, d) =
             Decode hw (bsl_data packetdata) (bsl packetdata) flag (pts packetdata) (mDecoder s3);
          s4 = s3\<lparr>mDecoder := d,
                  mFramesDecodedTillNow :=
                    to_uint32 (mFramesDecodedTillNow s3 + int numDecodedFrames)\<rparr>
      in frame_loop numDecodedFrames targetValue s4)"

text \<open>
  The loop \<open>while (!bTargetFrameFound)\<close>, entered with the target not found. The second
  argument is the list of packets the demuxer has not handed out; the loop returns what is
  left of it. At the end of the file \<open>Demux\<close> fails, the packet is zeroed (the key-frame flag
  keeps its last value) and the loop is left after this pass; it is also left after a
  packet whose size and pointer are 0.
\<close>

fun decode_loop ::
  "'p parser \<Rightarrow> PacketData list \<Rightarrow> bool \<Rightarrow> int \<Rightarrow> 'p SeekUtils
     \<Rightarrow> bool \<times> PacketData list \<times> 'p SeekUtils" where
  "decode_loop hw [] isKeyFrame targetValue s =
     (let packetdata = empty_PacketData\<lparr>key := (if isKeyFrame then 1 else 0)\<rparr>;
          (found, targetValue', s') = decode_packet hw packetdata isKeyFrame targetValue s
      in (found, [], s'))"
| "decode_loop hw (p # ps) isKeyFrame targetValue s =
     (let isKeyFrame' = (key p \<noteq> 0);
          packetdata = p\<lparr>key := (if isKeyFrame' then 1 else 0)\<rparr>;
          (found, targetValue', s') = decode_packet hw packetdata isKeyFrame' targetValue s
      in if bsl packetdata = 0 \<and> bsl_data packetdata = 0 then (found, ps, s')
         else if found then (found, ps, s')
         else decode_loop hw ps isKeyFrame' targetValue' s')"

text \<open>
  The search in \<open>mPendingFrames\<close> for a negative \<open>targetValue\<close>. \<open>actual_idx\<close> is an \<open>int\<close>
  computed from a \<open>size_t\<close> sum and compared with a \<open>size_t\<close>, so it is converted back to
  \<open>size_t\<close> for the comparison and for the subscript; a subscript equal to the size is a read
  past the end of the vector.
\<close>

definition search_pending :: "int \<Rightarrow> 'p SeekUtils \<Rightarrow> seek_error + (bool \<times> int \<times> 'p SeekUtils)" where
  "search_pending targetValue s =
     (if targetValue < 0 then
        (let actual_idx =
               to_int32 (to_size_t (to_size_t targetValue + int (length (mPendingFrames s))))
         in if to_size_t actual_idx \<le> int (length (mPendingFrames s)) then
              (if to_size_t actual_idx < int (length (mPendingFrames s)) then
                 Inr (True, 0,
                      s\<lparr>mTargetFrames :=
                          mTargetFrames s @ [mPendingFrames s ! nat (to_size_t actual_idx)]\<rparr>)
               else Inl PendingIndexOutOfRange)
            else Inr (False, targetValue, s))
      else Inr (False, targetValue, s\<lparr>mPendingFrames := []\<rparr>))"

text \<open>The body of the loop over the requested indices, for one index (a \<open>uint32_t\<close>).\<close>

definition resolve_index :: "'p parser \<Rightarrow> nat \<Rightarrow> 'p SeekUtils \<Rightarrow> seek_error + 'p SeekUtils" where
  "resolve_index hw currentTargetIndex s =
     (case ShouldSeek (mDemuxer s) (mPreviousTargetIndex s) (int currentTargetIndex) of
        Inl e \<Rightarrow> Inl e
      | Inr result \<Rightarrow>
          if snd result = INVALID_INDEX_ENTRY then Inr s
          else
            (case (if fst result then
                     (case GetKeyNearestKeyFrameIndexForTarget (mDemuxer s)
                             (int currentTargetIndex) of
                        Inl e \<Rightarrow> Inl e
                      | Inr keyframe \<Rightarrow>
                          (case Seek currentTargetIndex (mDemuxer s) of
                             Inl e \<Rightarrow> Inl e
                           | Inr dm \<Rightarrow>
                               Inr (s\<lparr>mDemuxer := dm,
                                      mFramesDecodedTillNow := to_uint32 keyframe,
                                      mbDiscontinuityFlag := True,
                                      mPendingFrames := [],
                                      mPreviouslyDecodedFramesPTS := []\<rparr>)))
                   else Inr (s\<lparr>mbDiscontinuityFlag := False\<rparr>)) of
               Inl e \<Rightarrow> Inl e
             | Inr s1 \<Rightarrow>
                 (case search_pending
                         (to_int32 (to_uint32 (int currentTargetIndex - mFramesDecodedTillNow s1)))
                         s1 of
                    Inl e \<Rightarrow> Inl e
                  | Inr (found0, targetValue, s2) \<Rightarrow>
                      (let (found, rest, s3) =
                             (if found0 then (True, unread (mDemuxer s2), s2)
                              else decode_loop hw (unread (mDemuxer s2)) False targetValue s2);
                           s4 = s3\<lparr>mDemuxer := (mDemuxer s3)\<lparr>unread := rest\<rparr>\<rparr>
                       in Inr (if found
                               then s4\<lparr>mPreviousTargetIndex := to_int32 (int currentTargetIndex)\<rparr>
                               else s4)))))"

fun resolve_indices :: "'p parser \<Rightarrow> nat list \<Rightarrow> 'p SeekUtils \<Rightarrow> seek_error + 'p SeekUtils" where
  "resolve_indices hw [] s = Inr s"
| "resolve_indices hw (i # indices) s =
     (case resolve_index hw i s of
        Inl e \<Rightarrow> Inl e
      | Inr s' \<Rightarrow> resolve_indices hw indices s')"

definition GetFramesByIdxList ::
  "'p parser \<Rightarrow> nat list \<Rightarrow> 'p SeekUtils \<Rightarrow> seek_error + (DecodedFrame list \<times> 'p SeekUtils)" where
  "GetFramesByIdxList hw indices s =
     (case resolve_indices hw indices ((UnlockFrames s)\<lparr>mTargetFrames := []\<rparr>) of
        Inl e \<Rightarrow> Inl e
      | Inr s' \<Rightarrow> Inr (mTargetFrames s', s'))"

definition IsSeekBackwards :: "int \<Rightarrow> 'p SeekUtils \<Rightarrow> bool \<times> 'p SeekUtils" where
  "IsSeekBackwards newTargetIdx s =
     (if newTargetIdx \<le> mPreviousTargetIndex s \<and> mPreviousTargetIndex s \<noteq> - 1
      then (True, s\<lparr>bIsSeekDirectionBackwards := True\<rparr>)
      else (False, s\<lparr>bIsSeekDirectionBackwards := False\<rparr>))"

definition SeekToIndex :: "nat \<Rightarrow> 'p SeekUtils \<Rightarrow> 'p SeekUtils" where
  "SeekToIndex newTargetIdx s =
     s\<lparr>mPreviousTargetIndex := to_int32 (int newTargetIdx), bSeekToIndexSet := True\<rparr>"

section \<open>RunDecoder (src/ThreadedDecoder.cpp)\<close>

text \<open>
  The decode thread, seen through the calls it makes. The events are the packets it gives
  to \<open>Decode\<close>, the frames it gives to \<open>PushEntry\<close> and its call of \<open>PushDone\<close>, in order. A
  \<open>PushEntry\<close> that finds the channel full waits for the consumer and then proceeds, so it
  is one event. The stop flag belongs to another thread: \<open>stop n\<close> is the value the
  \<open>n\<close>-th \<open>load\<close> of the run reads (counting from 0), and \<open>loads\<close> counts the loads made.
\<close>

datatype run_event =
    Decoded CUVIDSOURCEDATAPACKET
  | Pushed DecodedFrame
  | PushDoneCalled

record 'p run_state =
  decoder :: "'p NvDecoder"
  trace :: "run_event list"
  loads :: nat






section \<open>A sample stream and a sample decoder\<close>

text \<open>
  A file of three video packets with timestamps 0, 1 and 2, the first a key frame, in a
  container whose index table has an entry for the frames 0, 1 and 2.
\<close>

definition sample_packets :: "PacketData list" where
  "sample_packets =
     [\<lparr>bsl_data = 100, bsl = 10, pts = 0, key = 1\<rparr>,
      \<lparr>bsl_data = 101, bsl = 10, pts = 1, key = 0\<rparr>,
      \<lparr>bsl_data = 102, bsl = 10, pts = 2, key = 0\<rparr>]"

definition sample_demuxer :: FFmpegDemuxer where
  "sample_demuxer =
     \<lparr>video_packets = sample_packets, unread = sample_packets, container = ''mpegts'',
      is_seekable = True,
      index_entry = (\<lambda>i. if 0 \<le> i \<and> i < 3 then Some i else None),
      index_search_timestamp = (\<lambda>ts. 0),
      FrameToPts = (\<lambda>i. i), dts_to_frame_number = (\<lambda>ts. ts),
      seek_frame = (\<lambda>ts. Some 0), seeks = []\<rparr>"

text \<open>
  A parser that holds back \<open>latency\<close> frames: a packet with a payload adds the frame of
  its timestamp (in the buffer its payload pointer names) and releases the oldest frame once
  more than \<open>latency\<close> are held; an end-of-stream packet releases all of them; an empty
  discontinuity packet drops them.
\<close>

definition sample_parser :: "nat \<Rightarrow> DecodedFrame list parser" where
  "sample_parser latency held packet =
     (if CUVID_PKT_ENDOFSTREAM \<in> flags packet then (held, [])
      else if payload_size packet = 0 then ([], [])
      else
        (let held' = held @ [\<lparr>timestamp = packet_timestamp packet, extBuf_data = payload packet\<rparr>]
         in if latency < length held' then ([hd held'], tl held') else ([], held')))"

definition sample_decoder :: "DecodedFrame list NvDecoder" where
  "sample_decoder =
     \<lparr>hParser = [], frames_ready = [], m_LockedFrames = [], parsed = [],
      bWaitForSessionWarmUp = False, sessionInitCounter = 0\<rparr>"
section \<open>Properties of SPSCBuffer\<close>


lemma buffered_hd:
  "0 < mCount s \<Longrightarrow> mTail s < mCapacity s \<Longrightarrow> buffered s = mBuffer s ! mTail s # 
     map (\<lambda>i. mBuffer s ! ((mTail s + Suc i) mod mCapacity s)) [0 ..< mCount s - 1]"
  unfolding buffered_def
  by (cases "mCount s") (simp_all add: upt_conv_Cons map_Suc_upt[symmetric] del: upt_Suc)

lemma pop_step_inv:
  assumes "channel_inv s" "0 < mCount s"
  shows "channel_inv (s\<lparr>mTail := ((mTail s + 1) mod 2 ^ 32) mod mCapacity s,
          mCount := (mCount s + 2 ^ 32 - 1) mod 2 ^ 32\<rparr>)"
    and "((mTail s + 1) mod 2 ^ 32) mod mCapacity s = (mTail s + 1) mod mCapacity s"
    and "(mCount s + 2 ^ 32 - 1) mod 2 ^ 32 = mCount s - 1"
proof -
  from assms have cap: "0 < mCapacity s" "mCapacity s < 2 ^ 32" "mCount s \<le> mCapacity s"
    and t: "mTail s < mCapacity s" and h: "mHead s = (mTail s + mCount s) mod mCapacity s"
    and hl: "mHead s < mCapacity s" and len: "length (mBuffer s) = mCapacity s"
    by (auto simp: channel_inv_def)
  from t cap have t1: "(mTail s + 1) mod 2 ^ 32 = mTail s + 1" by simp
  have "mCount s + 2 ^ 32 - 1 = (mCount s - 1) + 2 ^ 32" using assms(2) by simp
  then have "(mCount s + 2 ^ 32 - 1) mod 2 ^ 32 = (mCount s - 1) mod 2 ^ 32"
    by (simp only: mod_add_self2)
  with cap have c1: "(mCount s + 2 ^ 32 - 1) mod 2 ^ 32 = mCount s - 1" by simp
  show "((mTail s + 1) mod 2 ^ 32) mod mCapacity s = (mTail s + 1) mod mCapacity s"
    using t1 by simp
  show "(mCount s + 2 ^ 32 - 1) mod 2 ^ 32 = mCount s - 1" by (rule c1)
  have "((mTail s + 1) mod mCapacity s + (mCount s - 1)) mod mCapacity s
        = (mTail s + 1 + (mCount s - 1)) mod mCapacity s"
    by (simp add: mod_add_left_eq)
  also have "\<dots> = (mTail s + mCount s) mod mCapacity s" using assms(2) by simp
  finally have hh: "mHead s = ((mTail s + 1) mod mCapacity s + (mCount s - 1)) mod mCapacity s"
    using h by simp
  show "channel_inv (s\<lparr>mTail := ((mTail s + 1) mod 2 ^ 32) mod mCapacity s,
          mCount := (mCount s + 2 ^ 32 - 1) mod 2 ^ 32\<rparr>)"
    unfolding t1 c1 using cap hl len hh by (simp add: channel_inv_def)
qed

lemma pop_loop_spec:
  "channel_inv s \<Longrightarrow> n \<le> mCount s \<Longrightarrow>
   pop_loop n s es = (es @ take n (buffered s),
      s\<lparr>mTail := (mTail s + n) mod mCapacity s, mCount := mCount s - n\<rparr>)"
proof (induction n arbitrary: s es)
  case 0
  then have "mTail s mod mCapacity s = mTail s"
    by (cases "mCapacity s = 0") (auto simp: channel_inv_def)
  then show ?case by simp
next
  case (Suc n)
  let ?s1 = "s\<lparr>mTail := ((mTail s + 1) mod 2 ^ 32) mod mCapacity s,
          mCount := (mCount s + 2 ^ 32 - 1) mod 2 ^ 32\<rparr>"
  from Suc.prems have pos: "0 < mCount s" by simp
  note st = pop_step_inv[OF Suc.prems(1) pos]
  from Suc.prems have t: "mTail s < mCapacity s" by (auto simp: channel_inv_def)
  have n1: "n \<le> mCount ?s1" using st(3) Suc.prems(2) by simp
  have b1: "buffered ?s1 = tl (buffered s)"
    using buffered_hd[OF pos t] st(2,3)
    by (simp add: buffered_def mod_add_left_eq)
  have b0: "buffered s = mBuffer s ! mTail s # tl (buffered s)"
    using buffered_hd[OF pos t] by simp
  have tk: "take (Suc n) (buffered s) = mBuffer s ! mTail s # take n (tl (buffered s))"
    by (subst b0) simp
  have md: "((mTail s + 1) mod mCapacity s + n) mod mCapacity s = (mTail s + Suc n) mod mCapacity s"
    by (simp add: mod_add_left_eq)
  show ?case
    using Suc.IH[OF st(1) n1, of "es @ [mBuffer s ! mTail s]"] b1 tk st(2,3) md
    by simp
qed



lemma mod_shift_neq:
  fixes t i c cap :: nat
  assumes "i < c" "c < cap"
  shows "(t + i) mod cap \<noteq> (t + c) mod cap"
proof
  assume eq: "(t + i) mod cap = (t + c) mod cap"
  have "t + i \<le> t + c" using assms by simp
  from mod_eq_dvd_iff_nat[OF this, of cap] eq have "cap dvd (t + c) - (t + i)" by simp
  then have "cap dvd c - i" by simp
  moreover have "0 < c - i" "c - i < cap" using assms by simp_all
  ultimately show False by (auto dest: dvd_imp_le)
qed

lemma push_spec:
  assumes inv: "channel_inv s" and room: "mCount s < mCapacity s"
  shows "PushEntry x s = Done (True, s\<lparr>mBuffer := (mBuffer s)[mHead s := x],
            mHead := (mHead s + 1) mod mCapacity s, mCount := mCount s + 1\<rparr>)"
    and "channel_inv (s\<lparr>mBuffer := (mBuffer s)[mHead s := x],
            mHead := (mHead s + 1) mod mCapacity s, mCount := mCount s + 1\<rparr>)"
    and "buffered (s\<lparr>mBuffer := (mBuffer s)[mHead s := x],
            mHead := (mHead s + 1) mod mCapacity s, mCount := mCount s + 1\<rparr>) = buffered s @ [x]"
proof -
  from inv room have cap: "0 < mCapacity s" "mCapacity s < 2 ^ 32"
    and t: "mTail s < mCapacity s" and h: "mHead s = (mTail s + mCount s) mod mCapacity s"
    and hl: "mHead s < mCapacity s" and len: "length (mBuffer s) = mCapacity s"
    by (auto simp: channel_inv_def)
  from hl cap room have w: "(mHead s + 1) mod 2 ^ 32 = mHead s + 1" "(mCount s + 1) mod 2 ^ 32 = mCount s + 1"
    by simp_all
  show "PushEntry x s = Done (True, s\<lparr>mBuffer := (mBuffer s)[mHead s := x],
            mHead := (mHead s + 1) mod mCapacity s, mCount := mCount s + 1\<rparr>)"
    using room w by (simp add: PushEntry_def)
  have "(mHead s + 1) mod mCapacity s = (mTail s + (mCount s + 1)) mod mCapacity s"
    unfolding h by (simp add: mod_add_left_eq mod_Suc_eq)
  then show "channel_inv (s\<lparr>mBuffer := (mBuffer s)[mHead s := x],
            mHead := (mHead s + 1) mod mCapacity s, mCount := mCount s + 1\<rparr>)"
    using cap room t len by (simp add: channel_inv_def)
  have old: "(mBuffer s)[mHead s := x] ! ((mTail s + i) mod mCapacity s)
      = mBuffer s ! ((mTail s + i) mod mCapacity s)" if "i < mCount s" for i
    using mod_shift_neq[OF that room, of "mTail s"] h by simp
  have new: "(mBuffer s)[mHead s := x] ! ((mTail s + mCount s) mod mCapacity s) = x"
    using h hl len by simp
  show "buffered (s\<lparr>mBuffer := (mBuffer s)[mHead s := x],
            mHead := (mHead s + 1) mod mCapacity s, mCount := mCount s + 1\<rparr>) = buffered s @ [x]"
    using old new by (simp add: buffered_def)
qed

lemma pop_spec:
  assumes inv: "channel_inv s" and ok: "batchSize \<le> mCapacity s"
    and ready: "(if batchSize = 0 then mCount s else batchSize) \<le> mCount s \<or> mDrain s"
  shows "PopEntries batchSize s =
     Done (take (if batchSize = 0 then mCount s else batchSize) (buffered s),
       s\<lparr>mTail := (mTail s + min (if batchSize = 0 then mCount s else batchSize) (mCount s)) mod mCapacity s,
         mCount := mCount s - min (if batchSize = 0 then mCount s else batchSize) (mCount s)\<rparr>)"
proof -
  let ?b1 = "if batchSize = 0 then mCount s else batchSize"
  let ?b2 = "if mDrain s \<and> mCount s < ?b1 then mCount s else ?b1"
  have b2: "?b2 = min ?b1 (mCount s)" using ready by auto
  have le: "?b2 \<le> mCount s" using ready by auto
  have len: "length (buffered s) = mCount s" by (simp add: buffered_def)
  have "PopEntries batchSize s = Done (pop_loop ?b2 s [])"
    using ok ready by (auto simp: PopEntries_def Let_def)
  also have "pop_loop ?b2 s [] = (take ?b2 (buffered s),
      s\<lparr>mTail := (mTail s + ?b2) mod mCapacity s, mCount := mCount s - ?b2\<rparr>)"
    using pop_loop_spec[OF inv le, of "[]"] by simp
  also have "take ?b2 (buffered s) = take ?b1 (buffered s)"
    using len by (auto simp: min_def)
  finally show ?thesis unfolding b2 by simp
qed

lemma pop_loop_inv:
  "channel_inv s \<Longrightarrow> n \<le> mCount s \<Longrightarrow> channel_inv (snd (pop_loop n s es))"
proof (induction n arbitrary: s es)
  case 0 then show ?case by simp
next
  case (Suc n)
  from Suc.prems have pos: "0 < mCount s" by simp
  note st = pop_step_inv[OF Suc.prems(1) pos]
  have "n \<le> mCount (s\<lparr>mTail := ((mTail s + 1) mod 2 ^ 32) mod mCapacity s,
          mCount := (mCount s + 2 ^ 32 - 1) mod 2 ^ 32\<rparr>)"
    using st(3) Suc.prems(2) by simp
  from Suc.IH[OF st(1) this] show ?case by simp
qed

lemma pop_loop_fields:
  "mCapacity (snd (pop_loop n s es)) = mCapacity s \<and> mDrain (snd (pop_loop n s es)) = mDrain s
   \<and> mHead (snd (pop_loop n s es)) = mHead s \<and> mBuffer (snd (pop_loop n s es)) = mBuffer s"
  by (induction n arbitrary: s es) simp_all

lemma channel_step_inv: "channel_inv s \<Longrightarrow> channel_inv (channel_step s op)"
proof (cases op)
  case (Push x)
  assume inv: "channel_inv s"
  show ?thesis
  proof (cases "mCount s < mCapacity s")
    case True
    from push_spec(1,2)[OF inv True, of x] Push show ?thesis by simp
  next
    case False
    then show ?thesis using inv Push by (simp add: PushEntry_def)
  qed
next
  case PushDoneOp
  assume "channel_inv s"
  then show ?thesis using PushDoneOp by (simp add: PushDone_def channel_inv_def)
next
  case (Pop n)
  assume inv: "channel_inv s"
  show ?thesis
  proof (cases "PopEntries n s")
    case (Done r)
    then obtain k where r: "r = pop_loop k s []" and k: "k \<le> mCount s"
      by (auto simp: PopEntries_def Let_def split: if_splits)
    from pop_loop_inv[OF inv k, of "[]"] r Done Pop show ?thesis
      by (simp add: case_prod_unfold)
  qed (use inv Pop in simp_all)
next
  case ClearOp
  assume "channel_inv s"
  then show ?thesis using ClearOp by (simp add: Clear_def channel_inv_def)
qed

lemma channel_step_capacity: "mCapacity (channel_step s op) = mCapacity s"
proof (cases op)
  case (Pop n)
  show ?thesis
  proof (cases "PopEntries n s")
    case (Done r)
    then obtain k where r: "r = pop_loop k s []"
      by (auto simp: PopEntries_def Let_def split: if_splits)
    from pop_loop_fields[of k s "[]"] r Done Pop show ?thesis by (simp add: case_prod_unfold)
  qed (use Pop in simp_all)
qed (auto simp: PushEntry_def PushDone_def Clear_def)

lemma channel_step_drain: "mDrain s \<Longrightarrow> op \<noteq> ClearOp \<Longrightarrow> mDrain (channel_step s op)"
proof (cases op)
  case (Pop n)
  assume d: "mDrain s"
  show ?thesis
  proof (cases "PopEntries n s")
    case (Done r)
    then obtain k where r: "r = pop_loop k s []"
      by (auto simp: PopEntries_def Let_def split: if_splits)
    from pop_loop_fields[of k s "[]"] r Done Pop d show ?thesis by (simp add: case_prod_unfold)
  qed (use Pop d in simp_all)
qed (auto simp: PushEntry_def PushDone_def)

lemma channel_run_inv: "channel_inv s \<Longrightarrow> channel_inv (channel_run s ops)"
  unfolding channel_run_def
  by (induction ops arbitrary: s) (simp_all add: channel_step_inv)

lemma channel_run_capacity: "mCapacity (channel_run s ops) = mCapacity s"
  unfolding channel_run_def
  by (induction ops arbitrary: s) (simp_all add: channel_step_capacity)

lemma channel_run_drain:
  "mDrain s \<Longrightarrow> ClearOp \<notin> set ops \<Longrightarrow> mDrain (channel_run s ops)"
  unfolding channel_run_def
  by (induction ops arbitrary: s) (auto simp: channel_step_drain)

lemma channel_new_inv: "sz < 2 ^ 32 \<Longrightarrow> channel_inv (SPSCBuffer_new sz d)"
  by (simp add: channel_inv_def SPSCBuffer_new_def)



lemma upt_0_2: "[0 ..< 2] = [0, 1]"
  by (simp add: numeral_2_eq_2)

lemma replicate_4: "replicate 4 x = [x, x, x, x]"
  by (simp add: numeral_eq_Suc)


text \<open>
  Claim C1. Every sequence of Push, PushDone, Pop and Clear calls keeps the state
  invariant of the channel: \<open>mCount\<close> stays between 0 and \<open>mCapacity\<close>, \<open>mHead\<close> and
  \<open>mTail\<close> stay below the capacity with \<open>mHead = (mTail + mCount) mod mCapacity\<close>, a push
  that proceeds moves \<open>mHead\<close> by one modulo the capacity, a pop that returns \<open>k\<close> items moves
  \<open>mTail\<close> by \<open>k\<close> modulo the capacity, and the drain flag, once set, survives every call
  but Clear, which resets it.
\<close>

theorem channel_invariant:
  assumes inv: "channel_inv s"
  shows "channel_inv (channel_run s ops) \<and>
         mCapacity (channel_run s ops) = mCapacity s \<and>
         (mDrain s \<and> ClearOp \<notin> set ops \<longrightarrow> mDrain (channel_run s ops)) \<and>
         mDrain (channel_step s PushDoneOp) \<and>
         \<not> mDrain (channel_step s ClearOp) \<and>
         (mCount s < mCapacity s \<longrightarrow>
            mHead (channel_step s (Push x)) = (mHead s + 1) mod mCapacity s \<and>
            mTail (channel_step s (Push x)) = mTail s \<and>
            mCount (channel_step s (Push x)) = mCount s + 1) \<and>
         (\<forall>es s'. PopEntries n s = Done (es, s') \<longrightarrow>
            length es \<le> mCount s \<and>
            mTail s' = (mTail s + length es) mod mCapacity s \<and>
            mHead s' = mHead s \<and>
            mCount s' = mCount s - length es)"
proof -
  have push: "mCount s < mCapacity s \<longrightarrow>
            mHead (channel_step s (Push x)) = (mHead s + 1) mod mCapacity s \<and>
            mTail (channel_step s (Push x)) = mTail s \<and>
            mCount (channel_step s (Push x)) = mCount s + 1"
    using push_spec(1)[OF inv, of x] by simp
  have pop: "length es \<le> mCount s \<and>
            mTail s' = (mTail s + length es) mod mCapacity s \<and>
            mHead s' = mHead s \<and>
            mCount s' = mCount s - length es" if d: "PopEntries n s = Done (es, s')" for es s'
  proof -
    let ?b = "if n = 0 then mCount s else n"
    from d have ok: "n \<le> mCapacity s" and ready: "?b \<le> mCount s \<or> mDrain s"
      by (auto simp: PopEntries_def Let_def split: if_splits)
    have len: "length (buffered s) = mCount s" by (simp add: buffered_def)
    from pop_spec[OF inv ok ready] d
    have es: "es = take ?b (buffered s)"
      and s': "s' = s\<lparr>mTail := (mTail s + min ?b (mCount s)) mod mCapacity s,
                      mCount := mCount s - min ?b (mCount s)\<rparr>"
      by simp_all
    from es len have l: "length es = min ?b (mCount s)" by simp
    show ?thesis unfolding l s' by simp
  qed
  show ?thesis
    using channel_run_inv[OF inv] channel_run_capacity[of s ops] channel_run_drain[of s ops]
      push pop
    by (simp add: PushDone_def Clear_def)
qed

theorem channel_invariant_witness:
  "mCount (channel_run (SPSCBuffer_new 4 (0::nat)) [Push 1, Push 2, PushDoneOp]) = 2 \<and>
   mCount (channel_run (channel_run (SPSCBuffer_new 4 (0::nat)) [Push 1, Push 2, PushDoneOp])
             [Pop 1, Push 3, Push 4, Push 5, Push 6]) \<le> 4 \<and>
   mDrain (channel_run (channel_run (SPSCBuffer_new 4 (0::nat)) [Push 1, Push 2, PushDoneOp])
             [Pop 1, Push 3, Push 4, Push 5, Push 6]) \<and>
   mHead (channel_step (channel_run (SPSCBuffer_new 4 (0::nat)) [Push 1, Push 2, PushDoneOp]) (Push 9)) = 3 \<and>
   (\<exists>s'. PopEntries 4 (channel_run (SPSCBuffer_new 4 (0::nat)) [Push 1, Push 2, PushDoneOp])
           = Done ([1, 2], s') \<and> mTail s' = 2 \<and> mCount s' = 0)"
proof -
  let ?s = "channel_run (SPSCBuffer_new 4 (0::nat)) [Push 1, Push 2, PushDoneOp]"
  have s: "?s = \<lparr>mBuffer = [1, 2, 0, 0], mHead = 2, mTail = 0, mCapacity = 4, mCount = 2, mDrain = True\<rparr>"
    by (simp add: channel_run_def SPSCBuffer_new_def PushEntry_def PushDone_def replicate_4)
  have inv: "channel_inv ?s" unfolding s by (simp add: channel_inv_def)
  have p: "PopEntries 4 ?s = Done ([1, 2], ?s\<lparr>mTail := 2, mCount := 0\<rparr>)"
    using pop_spec[OF inv, of 4] unfolding s by (simp add: buffered_def upt_0_2)
  show ?thesis
    using channel_invariant[OF inv, of "[Pop 1, Push 3, Push 4, Push 5, Push 6]" 9 4] p
    unfolding s channel_inv_def by simp
qed

text \<open>
  Claim C2. With the drain flag set and fewer than \<open>batchSize\<close> items buffered, a legal
  \<open>PopEntries batchSize\<close> does not wait and returns exactly the buffered items, leaving the
  channel empty. With capacity 4, after two pushes and PushDone, \<open>PopEntries 4\<close> returns the
  two items, and every later pop of a legal size returns no item.
\<close>

theorem drain_short_batch:
  fixes s :: "'a SPSCBuffer" and a b d :: 'a
  shows "(channel_inv s \<and> mDrain s \<and> mCount s < batchSize \<and> batchSize \<le> mCapacity s \<longrightarrow>
      PopEntries batchSize s =
        Done (buffered s, s\<lparr>mTail := (mTail s + mCount s) mod mCapacity s, mCount := 0\<rparr>)) \<and>
   (\<exists>s2. PopEntries 4 (channel_run (SPSCBuffer_new 4 d) [Push a, Push b, PushDoneOp])
            = Done ([a, b], s2) \<and>
         (\<forall>n \<le> 4. \<exists>s3. PopEntries n s2 = Done ([], s3)))"
proof -
  have gen: "PopEntries batchSize s =
        Done (buffered s, s\<lparr>mTail := (mTail s + mCount s) mod mCapacity s, mCount := 0\<rparr>)"
    if inv: "channel_inv s" and d: "mDrain s" and lt: "mCount s < batchSize"
      and ok: "batchSize \<le> mCapacity s"
  proof -
    have len: "length (buffered s) = mCount s" by (simp add: buffered_def)
    from lt have nz: "batchSize \<noteq> 0" by simp
    from pop_spec[OF inv ok] d nz lt len show ?thesis by (simp add: min_def)
  qed
  let ?s = "channel_run (SPSCBuffer_new 4 d) [Push a, Push b, PushDoneOp]"
  have s: "?s = \<lparr>mBuffer = [a, b, d, d], mHead = 2, mTail = 0, mCapacity = 4, mCount = 2, mDrain = True\<rparr>"
    by (simp add: channel_run_def SPSCBuffer_new_def PushEntry_def PushDone_def replicate_4)
  let ?s2 = "\<lparr>mBuffer = [a, b, d, d], mHead = 2, mTail = 2, mCapacity = 4, mCount = 0, mDrain = True\<rparr>"
  have inv: "channel_inv ?s" unfolding s by (simp add: channel_inv_def)
  have p: "PopEntries 4 ?s = Done ([a, b], ?s2)"
    using pop_spec[OF inv, of 4] unfolding s by (simp add: buffered_def upt_0_2)
  have inv2: "channel_inv ?s2" by (simp add: channel_inv_def)
  have "\<exists>s3. PopEntries n ?s2 = Done ([], s3)" if "n \<le> 4" for n
    using pop_spec[OF inv2, of n] that by (simp add: buffered_def)
  then have "\<forall>n \<le> 4. \<exists>s3. PopEntries n ?s2 = Done ([], s3)" by simp
  with p have "\<exists>s2. PopEntries 4 ?s = Done ([a, b], s2) \<and>
         (\<forall>n \<le> 4. \<exists>s3. PopEntries n s2 = Done ([], s3))"
    by (intro exI[of _ ?s2] conjI)
  with gen show ?thesis by simp
qed

theorem drain_short_batch_witness:
  "PopEntries 3 \<lparr>mBuffer = [5, 6, 7, 8::nat], mHead = 1, mTail = 3, mCapacity = 4, mCount = 2, mDrain = True\<rparr>
     = Done ([8, 5], \<lparr>mBuffer = [5, 6, 7, 8], mHead = 1, mTail = 1, mCapacity = 4, mCount = 0, mDrain = True\<rparr>)"
proof -
  let ?s = "\<lparr>mBuffer = [5, 6, 7, 8::nat], mHead = 1, mTail = 3, mCapacity = 4, mCount = 2, mDrain = True\<rparr>"
  have h: "channel_inv ?s \<and> mDrain ?s \<and> mCount ?s < 3 \<and> 3 \<le> mCapacity ?s"
    by (simp add: channel_inv_def)
  have b: "buffered ?s = [8, 5]" by (simp add: buffered_def upt_0_2)
  from drain_short_batch[where s = "?s" and batchSize = 3 and d = 0 and a = 0 and b = 0] h b
  show ?thesis by simp
qed

text \<open>
  Claim C7. A \<open>batchSize\<close> above the capacity makes \<open>PopEntries\<close> throw the runtime error
  (the batch is not clamped) and the channel is left as it was.
\<close>

theorem pop_over_capacity_throws:
  "mCapacity s < batchSize \<Longrightarrow>
     PopEntries batchSize s = Throws (invalid_batch_msg batchSize (mCapacity s)) \<and>
     channel_step s (Pop batchSize) = s"
  by (simp add: PopEntries_def)

theorem pop_over_capacity_throws_witness:
  "PopEntries 5 \<lparr>mBuffer = [5, 6, 7, 8::nat], mHead = 1, mTail = 3, mCapacity = 4, mCount = 2, mDrain = False\<rparr>
     = Throws ''Got invalid value for batchSize. Got 5 Max allowed value is 4'' \<and>
   channel_step \<lparr>mBuffer = [5, 6, 7, 8::nat], mHead = 1, mTail = 3, mCapacity = 4, mCount = 2, mDrain = False\<rparr> (Pop 5)
     = \<lparr>mBuffer = [5, 6, 7, 8::nat], mHead = 1, mTail = 3, mCapacity = 4, mCount = 2, mDrain = False\<rparr>"
  using pop_over_capacity_throws[of "\<lparr>mBuffer = [5, 6, 7, 8::nat], mHead = 1, mTail = 3, mCapacity = 4, mCount = 2, mDrain = False\<rparr>" 5]
  by (simp add: invalid_batch_msg_def string_of_nat.simps)

text \<open>
  Claim C10. \<open>PopEntries 0\<close> never waits and never throws: the batch size becomes the count at
  entry, so the call returns at once, with no item on an empty channel whatever the drain
  flag, and otherwise with exactly the items buffered at entry.
\<close>

theorem pop_zero_never_waits:
  "PopEntries 0 s = Done (pop_loop (mCount s) s []) \<and>
   (mCount s = 0 \<longrightarrow> pop_loop (mCount s) s [] = ([], s)) \<and>
   (channel_inv s \<longrightarrow>
      pop_loop (mCount s) s [] =
        (buffered s, s\<lparr>mTail := (mTail s + mCount s) mod mCapacity s, mCount := 0\<rparr>))"
proof -
  have "PopEntries 0 s = Done (pop_loop (mCount s) s [])"
    by (simp add: PopEntries_def)
  moreover have "pop_loop (mCount s) s [] =
        (buffered s, s\<lparr>mTail := (mTail s + mCount s) mod mCapacity s, mCount := 0\<rparr>)"
    if "channel_inv s"
    using pop_loop_spec[OF that, of "mCount s" "[]"] by (simp add: buffered_def)
  ultimately show ?thesis by simp
qed

theorem pop_zero_never_waits_witness:
  "PopEntries 0 \<lparr>mBuffer = [5, 6, 7, 8::nat], mHead = 1, mTail = 3, mCapacity = 4, mCount = 2, mDrain = False\<rparr>
     = Done ([8, 5], \<lparr>mBuffer = [5, 6, 7, 8], mHead = 1, mTail = 1, mCapacity = 4, mCount = 0, mDrain = False\<rparr>) \<and>
   PopEntries 0 \<lparr>mBuffer = [5, 6, 7, 8::nat], mHead = 1, mTail = 1, mCapacity = 4, mCount = 0, mDrain = False\<rparr>
     = Done ([], \<lparr>mBuffer = [5, 6, 7, 8], mHead = 1, mTail = 1, mCapacity = 4, mCount = 0, mDrain = False\<rparr>)"
proof -
  let ?s = "\<lparr>mBuffer = [5, 6, 7, 8::nat], mHead = 1, mTail = 3, mCapacity = 4, mCount = 2, mDrain = False\<rparr>"
  let ?e = "\<lparr>mBuffer = [5, 6, 7, 8::nat], mHead = 1, mTail = 1, mCapacity = 4, mCount = 0, mDrain = False\<rparr>"
  have h: "channel_inv ?s" by (simp add: channel_inv_def)
  have b: "buffered ?s = [8, 5]" by (simp add: buffered_def upt_0_2)
  from pop_zero_never_waits[of ?s] pop_zero_never_waits[of ?e] h b show ?thesis by simp
qed


section \<open>Properties of DecoderCache\<close>


lemma find_key_Some:
  "k \<in> fst ` set items \<Longrightarrow> \<exists>v. find (\<lambda>p. fst p = k) items = Some (k, v)"
  by (induction items) auto

lemma find_key_map_of: "find (\<lambda>p. fst p = k) items = map_option (Pair k) (map_of items k)"
  by (induction items) auto

lemma remove1_distinct_key:
  "distinct (map fst items) \<Longrightarrow> (k, v) \<in> set items \<Longrightarrow>
   remove1 (k, v) items = filter (\<lambda>p. fst p \<noteq> k) items"
proof (induction items)
  case Nil then show ?case by simp
next
  case (Cons p ps)
  show ?case
  proof (cases "p = (k, v)")
    case True
    with Cons.prems have "\<forall>q \<in> set ps. fst q \<noteq> k" by force
    then have "filter (\<lambda>p. fst p \<noteq> k) ps = ps" by (simp add: filter_id_conv)
    with True show ?thesis by simp
  next
    case False
    with Cons.prems have mem: "(k, v) \<in> set ps" by auto
    then have "k \<in> fst ` set ps" by force
    moreover from Cons.prems have "fst p \<notin> fst ` set ps" by simp
    ultimately have "fst p \<noteq> k" by auto
    with Cons mem False show ?thesis by auto
  qed
qed

lemma splice_front_spec:
  assumes "distinct (map fst items)" "(k, v) \<in> set items"
  shows "splice_front k items = (k, v) # filter (\<lambda>p. fst p \<noteq> k) items"
proof -
  from assms(2) have "k \<in> fst ` set items" by force
  from find_key_Some[OF this] obtain w where w: "find (\<lambda>p. fst p = k) items = Some (k, w)" by blast
  then have "(k, w) \<in> set items" by (auto simp: find_Some_iff)
  with assms have "w = v" by (meson eq_key_imp_eq_value)
  with w assms show ?thesis by (simp add: splice_front_def remove1_distinct_key)
qed

lemma assign_node_spec:
  "map fst (assign_node k v items) = map fst items \<and>
   (k \<in> fst ` set items \<longrightarrow> (k, v) \<in> set (assign_node k v items)) \<and>
   filter (\<lambda>p. fst p \<noteq> k) (assign_node k v items) = filter (\<lambda>p. fst p \<noteq> k) items"
  by (induction items) auto



lemma push_existing:
  assumes inv: "cache_inv c" and hit: "k \<in> mCacheMap c"
  shows "PushDecoder k v c =
     (None, c\<lparr>mCacheItems := (k, v) # filter (\<lambda>p. fst p \<noteq> k) (mCacheItems c)\<rparr>)"
proof -
  let ?xs = "assign_node k v (mCacheItems c)"
  note a = assign_node_spec[of k v "mCacheItems c"]
  from inv have d: "distinct (map fst ?xs)" using a by (simp add: cache_inv_def)
  from inv hit have "(k, v) \<in> set ?xs" using a by (simp add: cache_inv_def)
  from splice_front_spec[OF d this] a hit show ?thesis by (simp add: PushDecoder_def)
qed

lemma get_existing:
  assumes inv: "cache_inv c" and hit: "(k, w) \<in> set (mCacheItems c)"
  shows "GetDecoder k c =
     (Some w, c\<lparr>mCacheItems := (k, w) # filter (\<lambda>p. fst p \<noteq> k) (mCacheItems c)\<rparr>)"
proof -
  from inv have d: "distinct (map fst (mCacheItems c))" by (simp add: cache_inv_def)
  from inv hit have m: "k \<in> mCacheMap c" by (force simp: cache_inv_def)
  from splice_front_spec[OF d hit] m show ?thesis by (simp add: GetDecoder_def Let_def)
qed

lemma push_evicts:
  assumes inv: "cache_inv c" and miss: "k \<notin> mCacheMap c"
    and full: "int (length (mCacheItems c)) = cache_mCapacity c"
  shows "mCacheItems c \<noteq> []"
    and "PushDecoder k v c =
     (Some (snd (last (mCacheItems c))),
      c\<lparr>mCacheItems := (k, v) # butlast (mCacheItems c),
        mCacheMap := insert k (mCacheMap c - {fst (last (mCacheItems c))})\<rparr>)"
proof -
  from inv full show "mCacheItems c \<noteq> []" by (auto simp: cache_inv_def)
  from miss full show "PushDecoder k v c =
     (Some (snd (last (mCacheItems c))),
      c\<lparr>mCacheItems := (k, v) # butlast (mCacheItems c),
        mCacheMap := insert k (mCacheMap c - {fst (last (mCacheItems c))})\<rparr>)"
    by (simp add: PushDecoder_def)
qed

lemma to_int32_nonzero:
  assumes "1 \<le> x" "x < 2 ^ 32"
  shows "to_int32 x \<noteq> 0"
proof (cases "x < 2 ^ 31")
  case True
  with assms have "(x + 2 ^ 31) mod 2 ^ 32 = x + 2 ^ 31" by simp
  with assms show ?thesis by (simp add: to_int32_def)
next
  case False
  have "x + 2 ^ 31 = (x - 2 ^ 31) + 2 ^ 32" by simp
  then have "(x + 2 ^ 31) mod 2 ^ 32 = (x - 2 ^ 31) mod 2 ^ 32"
    by (metis mod_add_self2)
  also have "\<dots> = x - 2 ^ 31"
    by (rule mod_pos_pos_trivial) (use False assms in simp_all)
  finally show ?thesis using assms by (simp add: to_int32_def)
qed

lemma to_int32_range: "- (2 ^ 31) \<le> to_int32 x \<and> to_int32 x < 2 ^ 31"
proof -
  have "0 \<le> (x + 2 ^ 31) mod 2 ^ 32" "(x + 2 ^ 31) mod 2 ^ 32 < 2 ^ 32" by simp_all
  then show ?thesis by (simp add: to_int32_def)
qed

lemma to_size_t_int32_zero:
  assumes "- (2 ^ 31) \<le> x" "x < 2 ^ 31" "to_size_t x = 0"
  shows "x = 0"
proof (cases "0 \<le> x")
  case True
  with assms(2) have "x mod 2 ^ 64 = x" by simp
  with assms(3) show ?thesis by (simp add: to_size_t_def)
next
  case False
  have "x mod 2 ^ 64 = (x + 2 ^ 64) mod 2 ^ 64" by simp
  also have "\<dots> = x + 2 ^ 64"
    by (rule mod_pos_pos_trivial) (use False assms(1) in simp_all)
  finally show ?thesis using assms(1,3) by (simp add: to_size_t_def)
qed

lemma cache_inv_new: "cache_inv (DecoderCache_new capacity)"
proof -
  have "to_int32 (int (capacity mod 2 ^ 32)) \<noteq> 0" if "\<not> capacity mod 2 ^ 32 < 1"
  proof (rule to_int32_nonzero)
    from that show "1 \<le> int (capacity mod 2 ^ 32)" by simp
    have "capacity mod 2 ^ 32 < 2 ^ 32" by simp
    then show "int (capacity mod 2 ^ 32) < 2 ^ 32" by (metis of_nat_less_iff of_nat_numeral of_nat_power)
  qed
  then show ?thesis using to_int32_range[of "int (capacity mod 2 ^ 32)"]
    by (auto simp: cache_inv_def DecoderCache_new_def)
qed

lemma distinct_butlast_keys:
  "distinct (map fst xs) \<Longrightarrow> xs \<noteq> [] \<Longrightarrow>
   distinct (map fst (butlast xs)) \<and> fst ` set (butlast xs) = fst ` set xs - {fst (last xs)}"
proof (induction xs rule: rev_induct)
  case Nil then show ?case by simp
next
  case (snoc x xs) then show ?case by auto
qed

lemma cache_inv_PushDecoder:
  assumes inv: "cache_inv c"
  shows "cache_inv (snd (PushDecoder k v c))"
proof (cases "k \<in> mCacheMap c")
  case True
  from inv True have "insert k (fst ` {p \<in> set (mCacheItems c). fst p \<noteq> k}) = fst ` set (mCacheItems c)"
    by (force simp: cache_inv_def)
  with inv show ?thesis unfolding push_existing[OF inv True]
    by (auto simp: cache_inv_def distinct_map_filter)
next
  case False
  show ?thesis
  proof (cases "to_size_t (int (length (mCacheItems c))) = to_size_t (cache_mCapacity c)")
    case full: True
    have ne: "mCacheItems c \<noteq> []"
    proof
      assume "mCacheItems c = []"
      with full have "to_size_t (cache_mCapacity c) = 0" by (simp add: to_size_t_def)
      with inv show False using to_size_t_int32_zero[of "cache_mCapacity c"]
        by (simp add: cache_inv_def)
    qed
    from inv have d: "distinct (map fst (mCacheItems c))" by (simp add: cache_inv_def)
    note b = distinct_butlast_keys[OF d ne]
    from False inv b have "k \<notin> fst ` set (butlast (mCacheItems c))" by (simp add: cache_inv_def)
    with inv False full b show ?thesis
      by (simp add: PushDecoder_def cache_inv_def)
  next
    case notfull: False
    with inv False show ?thesis
      by (auto simp: PushDecoder_def cache_inv_def)
  qed
qed

lemma cache_inv_GetDecoder:
  assumes inv: "cache_inv c"
  shows "cache_inv (snd (GetDecoder k c))"
proof (cases "k \<in> mCacheMap c")
  case True
  with inv obtain w where w: "(k, w) \<in> set (mCacheItems c)" by (auto simp: cache_inv_def)
  from inv True have "insert k (fst ` {p \<in> set (mCacheItems c). fst p \<noteq> k}) = fst ` set (mCacheItems c)"
    by (force simp: cache_inv_def)
  with inv show ?thesis unfolding get_existing[OF inv w]
    by (auto simp: cache_inv_def distinct_map_filter)
next
  case False
  with inv show ?thesis by (simp add: GetDecoder_def)
qed



lemma lru_scenario:
  fixes A B C :: 'k and va vb vc :: 'v
  assumes "A \<noteq> B" "C \<noteq> A" "C \<noteq> B"
  shows "PushDecoder C vc (snd (GetDecoder A (snd (PushDecoder B vb
           (snd (PushDecoder A va (DecoderCache_new 2 :: ('k, 'v) DecoderCache)))))))
         = (Some vb, \<lparr>cache_mCapacity = 2, mCacheItems = [(C, vc), (A, va)], mCacheMap = {C, A}\<rparr>)"
proof -
  let ?c0 = "DecoderCache_new 2 :: ('k, 'v) DecoderCache"
  have c0: "?c0 = \<lparr>cache_mCapacity = 2, mCacheItems = [], mCacheMap = {}\<rparr>"
    by (simp add: DecoderCache_new_def to_int32_def)
  have c1: "snd (PushDecoder A va ?c0) = \<lparr>cache_mCapacity = 2, mCacheItems = [(A, va)], mCacheMap = {A}\<rparr>"
    unfolding c0 by (simp add: PushDecoder_def to_size_t_def)
  have c2: "snd (PushDecoder B vb \<lparr>cache_mCapacity = 2, mCacheItems = [(A, va)], mCacheMap = {A}\<rparr>)
      = \<lparr>cache_mCapacity = 2, mCacheItems = [(B, vb), (A, va)], mCacheMap = {B, A}\<rparr>"
    using assms by (simp add: PushDecoder_def to_size_t_def)
  have c3: "snd (GetDecoder A \<lparr>cache_mCapacity = 2, mCacheItems = [(B, vb), (A, va)], mCacheMap = {B, A}\<rparr>)
      = \<lparr>cache_mCapacity = 2, mCacheItems = [(A, va), (B, vb)], mCacheMap = {B, A}\<rparr>"
    using assms by (simp add: GetDecoder_def splice_front_def Let_def)
  have c4: "PushDecoder C vc \<lparr>cache_mCapacity = 2, mCacheItems = [(A, va), (B, vb)], mCacheMap = {B, A}\<rparr>
      = (Some vb, \<lparr>cache_mCapacity = 2, mCacheItems = [(C, vc), (A, va)], mCacheMap = {C, A}\<rparr>)"
    using assms by (auto simp: PushDecoder_def to_size_t_def)
  show ?thesis unfolding c1 c2 c3 c4 ..
qed

text \<open>
  Claim C3. \<open>PushDecoder\<close> on a key the cache holds overwrites its value and moves the entry
  to the front (most recently used) without evicting; on a new key while the list holds
  \<open>mCapacity\<close> entries it removes and returns the last (least recently used) entry and puts
  the new one at the front; \<open>GetDecoder\<close> moves a hit to the front and returns its value.
  With capacity 2, after inserting A, inserting B, getting A and inserting C, the evicted
  value is B's.
\<close>

theorem lru_cache_behaviour:
  fixes c :: "('k, 'v) DecoderCache" and k A B C :: 'k and v va vb vc :: 'v
  assumes inv: "cache_inv c"
  shows
    "(k \<in> mCacheMap c \<longrightarrow>
        PushDecoder k v c =
          (None, c\<lparr>mCacheItems := (k, v) # filter (\<lambda>p. fst p \<noteq> k) (mCacheItems c)\<rparr>)) \<and>
     (k \<notin> mCacheMap c \<and> int (length (mCacheItems c)) = cache_mCapacity c \<longrightarrow>
        mCacheItems c \<noteq> [] \<and>
        PushDecoder k v c =
          (Some (snd (last (mCacheItems c))),
           c\<lparr>mCacheItems := (k, v) # butlast (mCacheItems c),
             mCacheMap := insert k (mCacheMap c - {fst (last (mCacheItems c))})\<rparr>)) \<and>
     (\<forall>w. (k, w) \<in> set (mCacheItems c) \<longrightarrow>
        GetDecoder k c =
          (Some w, c\<lparr>mCacheItems := (k, w) # filter (\<lambda>p. fst p \<noteq> k) (mCacheItems c)\<rparr>)) \<and>
     (k \<notin> mCacheMap c \<longrightarrow> GetDecoder k c = (None, c)) \<and>
     (A \<noteq> B \<and> C \<noteq> A \<and> C \<noteq> B \<longrightarrow>
        fst (PushDecoder C vc (snd (GetDecoder A (snd (PushDecoder B vb
           (snd (PushDecoder A va (DecoderCache_new 2 :: ('k, 'v) DecoderCache)))))))) = Some vb)"
  using push_existing[OF inv, of k v] push_evicts[OF inv, where k = k]
    get_existing[OF inv, of k] lru_scenario[where A = A and B = B and C = C and va = va and vb = vb and vc = vc]
  by (simp add: GetDecoder_def)

theorem lru_cache_behaviour_witness:
  "PushDecoder (1::nat) (30::nat) \<lparr>cache_mCapacity = 2, mCacheItems = [(2, 20), (1, 10)], mCacheMap = {1, 2}\<rparr>
     = (None, \<lparr>cache_mCapacity = 2, mCacheItems = [(1, 30), (2, 20)], mCacheMap = {1, 2}\<rparr>) \<and>
   PushDecoder (3::nat) (30::nat) \<lparr>cache_mCapacity = 2, mCacheItems = [(2, 20), (1, 10)], mCacheMap = {1, 2}\<rparr>
     = (Some 10, \<lparr>cache_mCapacity = 2, mCacheItems = [(3, 30), (2, 20)], mCacheMap = {3, 2}\<rparr>) \<and>
   GetDecoder (1::nat) \<lparr>cache_mCapacity = 2, mCacheItems = [(2, 20::nat), (1, 10)], mCacheMap = {1, 2}\<rparr>
     = (Some 10, \<lparr>cache_mCapacity = 2, mCacheItems = [(1, 10), (2, 20)], mCacheMap = {1, 2}\<rparr>) \<and>
   GetDecoder (3::nat) \<lparr>cache_mCapacity = 2, mCacheItems = [(2, 20::nat), (1, 10)], mCacheMap = {1, 2}\<rparr>
     = (None, \<lparr>cache_mCapacity = 2, mCacheItems = [(2, 20), (1, 10)], mCacheMap = {1, 2}\<rparr>) \<and>
   fst (PushDecoder (3::nat) (30::nat) (snd (GetDecoder 1 (snd (PushDecoder 2 20
           (snd (PushDecoder 1 10 (DecoderCache_new 2)))))))) = Some 20"
proof -
  let ?c = "\<lparr>cache_mCapacity = 2, mCacheItems = [(2::nat, 20::nat), (1, 10)], mCacheMap = {1, 2}\<rparr>"
  have inv: "cache_inv ?c" by (auto simp: cache_inv_def)
  have ins: "insert (3::nat) ({1, 2} - {Suc 0}) = {3, 2}" by auto
  from lru_cache_behaviour[OF inv, where k = 1 and v = 30 and A = 1 and B = 2 and C = 3 and vc = 30 and vb = 20 and va = 10]
    lru_cache_behaviour[OF inv, where k = 3 and v = 30 and A = 1 and B = 2 and C = 3 and vc = 30 and vb = 20 and va = 10] ins
  show ?thesis by simp
qed



section \<open>Properties of SeekUtils\<close>

text \<open>
  Claim C9. \<open>setEOS\<close> sets \<open>mbEOSreached\<close> to true for either value of its argument:
  \<open>setEOS(false)\<close> does what \<open>setEOS(true)\<close> does, so the call cannot clear the flag.
\<close>

theorem setEOS_ignores_argument:
  "mbEOSreached (setEOS newVal s) \<and> setEOS False s = setEOS True s \<and>
   IsEOSReached (setEOS False s) \<and> setEOS newVal s = s\<lparr>mbEOSreached := True\<rparr>"
  by (simp add: setEOS_def IsEOSReached_def)

lemma lookup_invalid:
  "container dm \<noteq> ''flv'' \<Longrightarrow> container dm \<noteq> ''matroska,webm'' \<Longrightarrow>
   index_entry dm (to_int32 idx) = None \<Longrightarrow>
   GetKeyNearestKeyFrameIndexForTarget dm idx = Inr INVALID_INDEX_ENTRY"
  by (simp add: GetKeyNearestKeyFrameIndexForTarget_def)

lemma resolve_index_skip:
  "ShouldSeek (mDemuxer s) (mPreviousTargetIndex s) (int i) = Inr res \<Longrightarrow>
   snd res = INVALID_INDEX_ENTRY \<Longrightarrow> resolve_index hw i s = Inr s"
  by (simp add: resolve_index_def)

lemma UnlockFrames_fields:
  "mDemuxer (UnlockFrames s) = mDemuxer s \<and>
   mPreviousTargetIndex (UnlockFrames s) = mPreviousTargetIndex s \<and>
   mPendingFrames (UnlockFrames s) = mPendingFrames s \<and>
   mFramesDecodedTillNow (UnlockFrames s) = mFramesDecodedTillNow s \<and>
   mTargetFrames (UnlockFrames s) = mTargetFrames s"
  by (simp add: UnlockFrames_def)

text \<open>
  The rule of \<open>ShouldSeek\<close> where the key-frame lookups return: a seek when there is no
  previous target (\<open>- 1\<close>); with a previous target and both lookups valid, a seek exactly
  when the two key-frame indices differ and the new key-frame index is at least 4 frames
  ahead of the previous target. In a container other than flv and matroska a lookup that
  finds no index-table entry returns \<open>INVALID_INDEX_ENTRY\<close>; a result of \<open>ShouldSeek\<close>
  that carries it makes \<open>GetFramesByIdxList\<close> pass over the index, the state untouched and
  the rest of the batch resolved as if the index had not been requested.
\<close>

theorem should_seek_rule:
  "(GetKeyNearestKeyFrameIndexForTarget dm cur = Inr r \<longrightarrow>
      ShouldSeek dm (- 1) cur = Inr (True, r)) \<and>
   (prev \<noteq> - 1 \<and> GetKeyNearestKeyFrameIndexForTarget dm cur = Inr r \<and>
    GetKeyNearestKeyFrameIndexForTarget dm prev = Inr l \<and>
    l \<noteq> INVALID_INDEX_ENTRY \<and> r \<noteq> INVALID_INDEX_ENTRY \<longrightarrow>
      ShouldSeek dm prev cur = Inr (l \<noteq> r \<and> 4 \<le> r - prev, r)) \<and>
   (prev \<noteq> - 1 \<and> GetKeyNearestKeyFrameIndexForTarget dm cur = Inr r \<and>
    GetKeyNearestKeyFrameIndexForTarget dm prev = Inr l \<and>
    (l = INVALID_INDEX_ENTRY \<or> r = INVALID_INDEX_ENTRY) \<longrightarrow>
      ShouldSeek dm prev cur = Inr (False, INVALID_INDEX_ENTRY)) \<and>
   (container dm \<noteq> ''flv'' \<and> container dm \<noteq> ''matroska,webm'' \<and>
    index_entry dm (to_int32 idx) = None \<longrightarrow>
      GetKeyNearestKeyFrameIndexForTarget dm idx = Inr INVALID_INDEX_ENTRY) \<and>
   (ShouldSeek (mDemuxer s) (mPreviousTargetIndex s) (int i) = Inr res \<and>
    snd res = INVALID_INDEX_ENTRY \<longrightarrow>
      resolve_index hw i s = Inr s \<and>
      resolve_indices hw (i # indices) s = resolve_indices hw indices s \<and>
      GetFramesByIdxList hw (i # indices) s = GetFramesByIdxList hw indices s)"
proof -
  have skip: "resolve_index hw i s = Inr s \<and>
      resolve_indices hw (i # indices) s = resolve_indices hw indices s \<and>
      GetFramesByIdxList hw (i # indices) s = GetFramesByIdxList hw indices s"
    if a: "ShouldSeek (mDemuxer s) (mPreviousTargetIndex s) (int i) = Inr res"
      and b: "snd res = INVALID_INDEX_ENTRY"
  proof -
    let ?s0 = "(UnlockFrames s)\<lparr>mTargetFrames := []\<rparr>"
    have "ShouldSeek (mDemuxer ?s0) (mPreviousTargetIndex ?s0) (int i) = Inr res"
      using a by (simp add: UnlockFrames_fields)
    from resolve_index_skip[OF this b] resolve_index_skip[OF a b]
    show ?thesis by (simp add: GetFramesByIdxList_def)
  qed
  show ?thesis
    using skip lookup_invalid[of dm idx]
    by (auto simp: ShouldSeek_def)
qed

lemma to_int32_small [simp]: "- (2 ^ 31) \<le> x \<Longrightarrow> x < 2 ^ 31 \<Longrightarrow> to_int32 x = x"
  by (simp add: to_int32_def)

theorem should_seek_rule_witness:
  "ShouldSeek (sample_demuxer\<lparr>index_entry := (\<lambda>i. if 0 \<le> i \<and> i < 20 then Some i else None),
          index_search_timestamp := (\<lambda>ts. (ts div 10) * 10)\<rparr>) (- 1) 12 = Inr (True, 10) \<and>
   ShouldSeek (sample_demuxer\<lparr>index_entry := (\<lambda>i. if 0 \<le> i \<and> i < 20 then Some i else None),
          index_search_timestamp := (\<lambda>ts. (ts div 10) * 10)\<rparr>) 3 12 = Inr (True, 10) \<and>
   ShouldSeek (sample_demuxer\<lparr>index_entry := (\<lambda>i. if 0 \<le> i \<and> i < 20 then Some i else None),
          index_search_timestamp := (\<lambda>ts. (ts div 10) * 10)\<rparr>) 8 11 = Inr (False, 10) \<and>
   ShouldSeek (sample_demuxer\<lparr>index_entry := (\<lambda>i. if 0 \<le> i \<and> i < 20 then Some i else None),
          index_search_timestamp := (\<lambda>ts. (ts div 10) * 10)\<rparr>) 3 7 = Inr (False, 0) \<and>
   ShouldSeek (sample_demuxer\<lparr>index_entry := (\<lambda>i. if 0 \<le> i \<and> i < 20 then Some i else None),
          index_search_timestamp := (\<lambda>ts. (ts div 10) * 10)\<rparr>) 3 25 = Inr (False, - 2) \<and>
   GetFramesByIdxList (sample_parser 0) [5, 1] (SeekUtils_new sample_demuxer sample_decoder)
     = GetFramesByIdxList (sample_parser 0) [1] (SeekUtils_new sample_demuxer sample_decoder)"
proof -
  let ?dm = "sample_demuxer\<lparr>index_entry := (\<lambda>i. if 0 \<le> i \<and> i < 20 then Some i else None),
          index_search_timestamp := (\<lambda>ts. (ts div 10) * 10)\<rparr>"
  have k: "GetKeyNearestKeyFrameIndexForTarget ?dm 12 = Inr 10"
    "GetKeyNearestKeyFrameIndexForTarget ?dm 11 = Inr 10"
    "GetKeyNearestKeyFrameIndexForTarget ?dm 3 = Inr 0"
    "GetKeyNearestKeyFrameIndexForTarget ?dm 8 = Inr 0"
    "GetKeyNearestKeyFrameIndexForTarget ?dm 7 = Inr 0"
    "GetKeyNearestKeyFrameIndexForTarget ?dm 25 = Inr (- 2)"
    by (simp_all add: GetKeyNearestKeyFrameIndexForTarget_def sample_demuxer_def INVALID_INDEX_ENTRY_def)
  let ?s = "SeekUtils_new sample_demuxer sample_decoder"
  have inv5: "ShouldSeek (mDemuxer ?s) (mPreviousTargetIndex ?s) (int 5) = Inr (True, - 2)"
    by (simp add: ShouldSeek_def GetKeyNearestKeyFrameIndexForTarget_def sample_demuxer_def
        INVALID_INDEX_ENTRY_def SeekUtils_new_def)
  show ?thesis
    using should_seek_rule[where dm = ?dm and cur = 12 and r = 10 and prev = 3 and l = 0
        and idx = 25 and s = ?s and i = 5 and res = "(True, - 2)" and hw = "sample_parser 0" and indices = "[1]"]
      should_seek_rule[where dm = ?dm and cur = 11 and r = 10 and prev = 8 and l = 0
        and idx = 25 and s = ?s and i = 5 and res = "(True, - 2)" and hw = "sample_parser 0" and indices = "[1]"]
      should_seek_rule[where dm = ?dm and cur = 7 and r = 0 and prev = 3 and l = 0
        and idx = 25 and s = ?s and i = 5 and res = "(True, - 2)" and hw = "sample_parser 0" and indices = "[1]"]
      should_seek_rule[where dm = ?dm and cur = 25 and r = "- 2" and prev = 3 and l = 0
        and idx = 25 and s = ?s and i = 5 and res = "(True, - 2)" and hw = "sample_parser 0" and indices = "[1]"]
      k inv5
    by (simp add: INVALID_INDEX_ENTRY_def)
qed



text \<open>
  Claim C4: a key-frame lookup that finds no index-table entry is to give
  \<open>INVALID_INDEX_ENTRY\<close> and the index is to be skipped. In the branch for the flv and
  matroska containers \<open>GetKeyNearestKeyFrameIndexForTarget\<close> reads the timestamp of the
  entry without the null check its other branch makes. On a matroska stream whose index
  table holds no entry at or before the target (\<open>av_index_search_timestamp\<close> returns
  \<open>- 1\<close>) the lookup for index 0 dereferences a null entry, so does \<open>ShouldSeek\<close>, and
  \<open>GetFramesByIdxList\<close> aborts instead of skipping the index; on the same stream in an
  mpegts container the lookup returns \<open>INVALID_INDEX_ENTRY\<close> and the call returns no frame
  and no error.
\<close>

theorem lookup_without_entry_aborts:
  "GetKeyNearestKeyFrameIndexForTarget
     (sample_demuxer\<lparr>container := ''matroska,webm'', index_entry := (\<lambda>i. None),
                      index_search_timestamp := (\<lambda>ts. - 1)\<rparr>) 0
     = Inl NullIndexEntry \<and>
   ShouldSeek
     (sample_demuxer\<lparr>container := ''matroska,webm'', index_entry := (\<lambda>i. None),
                      index_search_timestamp := (\<lambda>ts. - 1)\<rparr>) (- 1) 0
     = Inl NullIndexEntry \<and>
   GetFramesByIdxList (sample_parser 0) [0]
     (SeekUtils_new
        (sample_demuxer\<lparr>container := ''matroska,webm'', index_entry := (\<lambda>i. None),
                         index_search_timestamp := (\<lambda>ts. - 1)\<rparr>) sample_decoder)
     = Inl NullIndexEntry \<and>
   GetKeyNearestKeyFrameIndexForTarget
     (sample_demuxer\<lparr>container := ''mpegts'', index_entry := (\<lambda>i. None),
                      index_search_timestamp := (\<lambda>ts. - 1)\<rparr>) 0
     = Inr INVALID_INDEX_ENTRY \<and>
   (case GetFramesByIdxList (sample_parser 0) [0]
     (SeekUtils_new
        (sample_demuxer\<lparr>container := ''mpegts'', index_entry := (\<lambda>i. None),
                         index_search_timestamp := (\<lambda>ts. - 1)\<rparr>) sample_decoder) of
      Inl e \<Rightarrow> None | Inr (fs, s') \<Rightarrow> Some fs) = Some []"
  by (simp add: GetKeyNearestKeyFrameIndexForTarget_def ShouldSeek_def GetFramesByIdxList_def
      resolve_index_def sample_demuxer_def SeekUtils_new_def UnlockFrames_def)

lemma drain_frames_spec:
  "drain_frames n s =
     s\<lparr>mDecoder := (mDecoder s)\<lparr>frames_ready := drop n (frames_ready (mDecoder s))\<rparr>\<rparr>"
proof (induction n arbitrary: s)
  case 0 then show ?case by simp
next
  case (Suc n)
  show ?case
    by (cases "frames_ready (mDecoder s)")
       (simp_all add: Suc SeekUtils_GetFrame_def NvDecoder_GetFrame_def)
qed

lemma unlock_fold_spec:
  "fold (\<lambda>frame d. NvDecoder_UnlockFrame (extBuf_data frame) d) frames d =
     d\<lparr>m_LockedFrames := fold remove1 (map extBuf_data frames) (m_LockedFrames d)\<rparr>"
  by (induction frames arbitrary: d) (simp_all add: NvDecoder_UnlockFrame_def)

text \<open>
  Claim C5, amended. When the demuxer accepts \<open>Seek(0)\<close>, \<open>ClearState(forceEOS)\<close> unlocks the
  frames of \<open>mTargetFrames\<close> (and no other locked buffer: the frames of \<open>mPendingFrames\<close>
  are dropped without being unlocked), empties \<open>mTargetFrames\<close>, \<open>mPendingFrames\<close> and
  \<open>mPreviouslyDecodedFramesPTS\<close>, sets \<open>mPreviousTargetIndex\<close> to \<open>- 1\<close>, sets
  \<open>mFramesDecodedTillNow\<close>, \<open>mFrameSizeInBytes\<close> and \<open>mTargetFramePTS\<close> to 0, clears
  \<open>mbDiscontinuityFlag\<close>, \<open>bSeekToIndexSet\<close> and \<open>mbEOSreached\<close>, leaves
  \<open>bIsSeekDirectionBackwards\<close> as it was, leaves the demuxer as \<open>Seek(0)\<close> left it, and,
  exactly when end of stream had been reached or \<open>forceEOS\<close> holds, gives one empty packet
  to the decoder and fetches every frame that call produced.
\<close>

theorem clear_state_effect:
  assumes seek0: "Seek 0 (mDemuxer s) = Inr dm"
  shows "\<exists>s'. ClearState hw bForceEOS s = Inr s' \<and>
      mTargetFrames s' = [] \<and> mPendingFrames s' = [] \<and>
      mPreviousTargetIndex s' = - 1 \<and> mFramesDecodedTillNow s' = 0 \<and>
      mFrameSizeInBytes s' = 0 \<and> \<not> mbDiscontinuityFlag s' \<and> mTargetFramePTS s' = 0 \<and>
      mPreviouslyDecodedFramesPTS s' = [] \<and> \<not> mbEOSreached s' \<and> \<not> bSeekToIndexSet s' \<and>
      bIsSeekDirectionBackwards s' = bIsSeekDirectionBackwards s \<and>
      mDemuxer s' = dm \<and>
      m_LockedFrames (mDecoder s') =
        fold remove1 (map extBuf_data (mTargetFrames s)) (m_LockedFrames (mDecoder s)) \<and>
      parsed (mDecoder s') =
        parsed (mDecoder s) @
          (if mbEOSreached s \<or> bForceEOS then [make_packet 0 0 {} 0] else []) \<and>
      (mbEOSreached s \<or> bForceEOS \<longrightarrow> frames_ready (mDecoder s') = [])"
proof (cases "mbEOSreached s \<or> bForceEOS")
  case True
  obtain frames p' where hw: "hw (hParser (mDecoder s)) (make_packet 0 0 {} 0) = (frames, p')"
    by (cases "hw (hParser (mDecoder s)) (make_packet 0 0 {} 0)")
  show ?thesis
    using seek0 True hw
    by (auto simp: ClearState_def UnlockFrames_def unlock_fold_spec Decode_def
        drain_frames_spec empty_PacketData_def Let_def)
next
  case False
  show ?thesis
    using seek0 False
    by (auto simp: ClearState_def UnlockFrames_def unlock_fold_spec Let_def)
qed

theorem clear_state_effect_witness:
  "(case ClearState (sample_parser 0) False
      ((SeekUtils_new sample_demuxer (sample_decoder\<lparr>m_LockedFrames := [101, 102]\<rparr>))
         \<lparr>mTargetFrames := [\<lparr>timestamp = 1, extBuf_data = 101\<rparr>],
          mPendingFrames := [\<lparr>timestamp = 2, extBuf_data = 102\<rparr>],
          mPreviousTargetIndex := 1, mFramesDecodedTillNow := 3,
          mbEOSreached := True, bIsSeekDirectionBackwards := True\<rparr>) of
      Inl e \<Rightarrow> None
    | Inr s' \<Rightarrow>
        Some (mTargetFrames s', mPendingFrames s', mPreviousTargetIndex s',
              mFramesDecodedTillNow s', mbEOSreached s', bIsSeekDirectionBackwards s',
              seeks (mDemuxer s'), unread (mDemuxer s'), m_LockedFrames (mDecoder s'),
              parsed (mDecoder s')))
   = Some ([], [], - 1, 0, False, True, [0], sample_packets, [102],
           [\<lparr>flags = {CUVID_PKT_TIMESTAMP, CUVID_PKT_ENDOFSTREAM}, payload_size = 0,
             payload = 0, packet_timestamp = 0\<rparr>])"
proof -
  let ?s = "(SeekUtils_new sample_demuxer (sample_decoder\<lparr>m_LockedFrames := [101, 102]\<rparr>))
         \<lparr>mTargetFrames := [\<lparr>timestamp = 1, extBuf_data = 101\<rparr>],
          mPendingFrames := [\<lparr>timestamp = 2, extBuf_data = 102\<rparr>],
          mPreviousTargetIndex := 1, mFramesDecodedTillNow := 3,
          mbEOSreached := True, bIsSeekDirectionBackwards := True\<rparr>"
  have seek0: "Seek 0 (mDemuxer ?s) = Inr (sample_demuxer\<lparr>unread := sample_packets, seeks := [0]\<rparr>)"
    by (simp add: Seek_def SeekUtils_new_def sample_demuxer_def)
  from clear_state_effect[OF seek0, of "sample_parser 0" False]
  obtain s' where "ClearState (sample_parser 0) False ?s = Inr s'"
    and "mTargetFrames s' = []" "mPendingFrames s' = []"
      "mPreviousTargetIndex s' = - 1" "mFramesDecodedTillNow s' = 0" "\<not> mbEOSreached s'"
      "bIsSeekDirectionBackwards s' = bIsSeekDirectionBackwards ?s"
      "mDemuxer s' = sample_demuxer\<lparr>unread := sample_packets, seeks := [0]\<rparr>"
      "m_LockedFrames (mDecoder s') =
        fold remove1 (map extBuf_data (mTargetFrames ?s)) (m_LockedFrames (mDecoder ?s))"
      "parsed (mDecoder s') = parsed (mDecoder ?s) @
          (if mbEOSreached ?s \<or> False then [make_packet 0 0 {} 0] else [])"
    by blast
  then show ?thesis
    by (simp add: SeekUtils_new_def sample_decoder_def make_packet_def insert_commute)
qed

text \<open>
  Claim C5 as first stated fails. With a parser that holds back two frames, resolving
  index 1 of the sample stream leaves the frame of timestamp 2 in \<open>mPendingFrames\<close>, its
  buffer 102 locked; after \<open>IsSeekBackwards 1\<close> has set the direction flag, \<open>ClearState\<close>
  empties \<open>mPendingFrames\<close> but buffer 102 is still locked and the direction flag is still
  set.
\<close>

theorem clear_state_counterexample:
  "(case GetFramesByIdxList (sample_parser 2) [1] (SeekUtils_new sample_demuxer sample_decoder) of
      Inl e \<Rightarrow> None
    | Inr (fs, s1) \<Rightarrow>
        (case ClearState (sample_parser 2) False (snd (IsSeekBackwards 1 s1)) of
           Inl e \<Rightarrow> None
         | Inr s2 \<Rightarrow>
             Some (map extBuf_data (mPendingFrames s1), m_LockedFrames (mDecoder s1),
                   bIsSeekDirectionBackwards s2, mPendingFrames s2, m_LockedFrames (mDecoder s2))))
   = Some ([102], [101, 102], True, [], [102])"
  by code_simp

section \<open>Properties of RunDecoder\<close>



























section \<open>Repeated requests through GetFramesByIdxList\<close>

lemma GetFrame_fields [simp]:
  "mDemuxer (snd (SeekUtils_GetFrame b s)) = mDemuxer s"
  "mTargetFrames (snd (SeekUtils_GetFrame b s)) = mTargetFrames s"
  "mPendingFrames (snd (SeekUtils_GetFrame b s)) = mPendingFrames s"
  "mFramesDecodedTillNow (snd (SeekUtils_GetFrame b s)) = mFramesDecodedTillNow s"
  "mPreviouslyDecodedFramesPTS (snd (SeekUtils_GetFrame b s)) = mPreviouslyDecodedFramesPTS s"
  "mTargetFramePTS (snd (SeekUtils_GetFrame b s)) = mTargetFramePTS s"
  "mPreviousTargetIndex (snd (SeekUtils_GetFrame b s)) = mPreviousTargetIndex s"
  by (simp_all add: SeekUtils_GetFrame_def case_prod_unfold Let_def)

lemma UnlockFrame_fields [simp]:
  "mDemuxer (UnlockFrame f s) = mDemuxer s"
  "mTargetFrames (UnlockFrame f s) = mTargetFrames s"
  "mPendingFrames (UnlockFrame f s) = mPendingFrames s"
  "mFramesDecodedTillNow (UnlockFrame f s) = mFramesDecodedTillNow s"
  "mPreviouslyDecodedFramesPTS (UnlockFrame f s) = mPreviouslyDecodedFramesPTS s"
  "mTargetFramePTS (UnlockFrame f s) = mTargetFramePTS s"
  "mPreviousTargetIndex (UnlockFrame f s) = mPreviousTargetIndex s"
  by (simp_all add: UnlockFrame_def)

lemma push_pending_fields:
  "mDemuxer (push_pending n s) = mDemuxer s \<and>
   mTargetFrames (push_pending n s) = mTargetFrames s \<and>
   mFramesDecodedTillNow (push_pending n s) = mFramesDecodedTillNow s \<and>
   mPreviousTargetIndex (push_pending n s) = mPreviousTargetIndex s \<and>
   length (mPendingFrames (push_pending n s)) = length (mPendingFrames s) + n"
  by (induction n arbitrary: s) (simp_all add: case_prod_unfold Let_def)

text \<open>A negative \<open>targetValue\<close> never reaches 0: the frame loop finds nothing.\<close>

lemma frame_loop_negative:
  "tv < 0 \<Longrightarrow>
   \<not> fst (frame_loop r tv s) \<and> fst (snd (frame_loop r tv s)) < 0 \<and>
   mTargetFrames (snd (snd (frame_loop r tv s))) = mTargetFrames s \<and>
   mDemuxer (snd (snd (frame_loop r tv s))) = mDemuxer s \<and>
   mPreviousTargetIndex (snd (snd (frame_loop r tv s))) = mPreviousTargetIndex s"
  by (induction r arbitrary: tv s) (simp_all add: case_prod_unfold Let_def)

lemma decode_packet_negative:
  "tv < 0 \<Longrightarrow>
   \<not> fst (decode_packet hw pd k tv s) \<and> fst (snd (decode_packet hw pd k tv s)) < 0 \<and>
   mTargetFrames (snd (snd (decode_packet hw pd k tv s))) = mTargetFrames s \<and>
   mDemuxer (snd (snd (decode_packet hw pd k tv s))) = mDemuxer s \<and>
   mPreviousTargetIndex (snd (snd (decode_packet hw pd k tv s))) = mPreviousTargetIndex s"
  unfolding decode_packet_def
  by (simp add: case_prod_unfold Let_def frame_loop_negative drain_frames_spec)

lemma decode_loop_negative:
  "tv < 0 \<Longrightarrow>
   \<not> fst (decode_loop hw ps k tv s) \<and>
   mTargetFrames (snd (snd (decode_loop hw ps k tv s))) = mTargetFrames s \<and>
   mDemuxer (snd (snd (decode_loop hw ps k tv s))) = mDemuxer s \<and>
   mPreviousTargetIndex (snd (snd (decode_loop hw ps k tv s))) = mPreviousTargetIndex s"
proof (induction ps arbitrary: k tv s)
  case Nil
  then show ?case
    using decode_packet_negative[of tv hw _ k s]
    by (simp add: case_prod_unfold Let_def)
next
  case (Cons p ps)
  let ?pd = "p\<lparr>key := (if key p \<noteq> 0 then 1 else 0)\<rparr>"
  note d = decode_packet_negative[OF Cons.prems, of hw ?pd "key p \<noteq> 0" s]
  from d have neg: "fst (snd (decode_packet hw ?pd (key p \<noteq> 0) tv s)) < 0" by simp
  note ih = Cons.IH[OF neg, of "key p \<noteq> 0" "snd (snd (decode_packet hw ?pd (key p \<noteq> 0) tv s))"]
  show ?case using d ih
    by (simp add: case_prod_unfold Let_def)
qed



lemma to_int32_uint32: "to_int32 (to_uint32 x) = to_int32 x"
  by (simp add: to_int32_def to_uint32_def mod_add_left_eq)

lemma to_int32_cong: "to_int32 x mod 2 ^ 32 = x mod 2 ^ 32"
proof -
  have "to_int32 x mod 2 ^ 32 = ((x + 2 ^ 31) mod 2 ^ 32 - 2 ^ 31) mod 2 ^ 32"
    by (simp add: to_int32_def)
  also have "\<dots> = (x + 2 ^ 31 - 2 ^ 31) mod 2 ^ 32"
    by (rule mod_diff_left_eq)
  finally show ?thesis by simp
qed

lemma to_uint32_diff: "to_uint32 (a - to_uint32 b) = to_uint32 (a - b)"
  by (simp add: to_uint32_def mod_diff_right_eq)

lemma GetKey_static:
  "GetKeyNearestKeyFrameIndexForTarget (dm\<lparr>unread := u\<rparr>) idx
     = GetKeyNearestKeyFrameIndexForTarget dm idx"
  "GetKeyNearestKeyFrameIndexForTarget (dm\<lparr>seeks := q\<rparr>) idx
     = GetKeyNearestKeyFrameIndexForTarget dm idx"
  by (simp_all add: GetKeyNearestKeyFrameIndexForTarget_def split: option.splits)

lemma ShouldSeek_same_index:
  "GetKeyNearestKeyFrameIndexForTarget dm i = Inr r \<Longrightarrow> r \<noteq> INVALID_INDEX_ENTRY \<Longrightarrow>
   i \<noteq> - 1 \<Longrightarrow> ShouldSeek dm i i = Inr (False, r)"
  by (simp add: ShouldSeek_def)

lemma pending_slot_after_decode:
  assumes p: "p + 1 < 2 ^ 31"
  shows "to_int32 (to_uint32 (int i - to_uint32 (int i + 1 + int p))) = - 1 - int p"
    and "to_int32 (to_size_t (to_size_t (- 1 - int p) + int p)) = - 1"
    and "\<not> to_size_t (- 1) \<le> int p"
proof -
  have pi: "int p + 1 < 2 ^ 31" using p by simp
  have "to_int32 (to_uint32 (int i - to_uint32 (int i + 1 + int p)))
      = to_int32 (int i - (int i + 1 + int p))"
    by (simp only: to_uint32_diff to_int32_uint32)
  also have "\<dots> = to_int32 (- 1 - int p)" by simp
  also have "\<dots> = - 1 - int p" using pi by (intro to_int32_small) simp_all
  finally show "to_int32 (to_uint32 (int i - to_uint32 (int i + 1 + int p))) = - 1 - int p" .
  have "to_size_t (to_size_t (- 1 - int p) + int p) = (- 1 - int p + int p) mod 2 ^ 64"
    unfolding to_size_t_def by (rule mod_add_left_eq)
  also have "\<dots> = 2 ^ 64 - 1" by simp
  finally show "to_int32 (to_size_t (to_size_t (- 1 - int p) + int p)) = - 1"
    by (simp add: to_int32_def)
  show "\<not> to_size_t (- 1) \<le> int p" using pi by (simp add: to_size_t_def)
qed

lemma second_request_after_decode:
  assumes i: "i < 2 ^ 31"
    and prev: "mPreviousTargetIndex s = int i"
    and fdtn: "mFramesDecodedTillNow s = to_uint32 (int i + 1 + int (length (mPendingFrames s)))"
    and p: "length (mPendingFrames s) + 1 < 2 ^ 31"
    and look: "GetKeyNearestKeyFrameIndexForTarget (mDemuxer s) (int i) = Inr r"
    and valid: "r \<noteq> INVALID_INDEX_ENTRY"
  shows "\<exists>s'. GetFramesByIdxList hw [i] s = Inr ([], s') \<and> mPreviousTargetIndex s' = int i"
proof -
  let ?s0 = "(UnlockFrames s)\<lparr>mTargetFrames := []\<rparr>"
  let ?s1 = "?s0\<lparr>mbDiscontinuityFlag := False\<rparr>"
  let ?p = "length (mPendingFrames s)"
  have ss: "ShouldSeek (mDemuxer ?s0) (mPreviousTargetIndex ?s0) (int i) = Inr (False, r)"
    using ShouldSeek_same_index[OF look valid] prev by (simp add: UnlockFrames_fields)
  note slot = pending_slot_after_decode[OF p]
  have tv: "to_int32 (to_uint32 (int i - mFramesDecodedTillNow ?s1)) = - 1 - int ?p"
    using slot(1)[of i] fdtn by (simp add: UnlockFrames_fields)
  have sp: "search_pending (- 1 - int ?p) ?s1 = Inr (False, - 1 - int ?p, ?s1)"
    using slot(2,3) by (simp add: search_pending_def UnlockFrames_fields Let_def)
  have neg: "- 1 - int ?p < 0" by simp
  note dl = decode_loop_negative[OF neg, of hw "unread (mDemuxer ?s1)" False ?s1]
  obtain found rest s3 where d: "decode_loop hw (unread (mDemuxer ?s1)) False (- 1 - int ?p) ?s1 = (found, rest, s3)"
    by (metis prod_cases3)
  with dl have nf: "\<not> found" and t3: "mTargetFrames s3 = []" and p3: "mPreviousTargetIndex s3 = int i"
    using prev by (simp_all add: UnlockFrames_fields)
  have "resolve_index hw i ?s0 = Inr (s3\<lparr>mDemuxer := (mDemuxer s3)\<lparr>unread := rest\<rparr>\<rparr>)"
    using ss valid tv sp d nf by (simp add: resolve_index_def)
  then show ?thesis using t3 p3 by (simp add: GetFramesByIdxList_def)
qed



lemma ShouldSeek_lookup:
  "ShouldSeek dm p c = Inr (b, r) \<Longrightarrow> r \<noteq> INVALID_INDEX_ENTRY \<Longrightarrow>
   GetKeyNearestKeyFrameIndexForTarget dm c = Inr r"
  by (auto simp: ShouldSeek_def split: sum.splits if_splits)

lemma ShouldSeek_no_seek_prev:
  "ShouldSeek dm p c = Inr (False, r) \<Longrightarrow> p \<noteq> - 1"
  by (auto simp: ShouldSeek_def split: sum.splits if_splits)

lemma demuxer_unread_same: "dm\<lparr>unread := unread dm\<rparr> = (dm :: FFmpegDemuxer)"
  by simp

lemma pending_served:
  assumes i: "i < 2 ^ 31"
    and noseek: "ShouldSeek (mDemuxer s) (mPreviousTargetIndex s) (int i) = Inr (False, r)"
    and valid: "r \<noteq> INVALID_INDEX_ENTRY"
    and neg: "to_int32 (to_uint32 (int i - mFramesDecodedTillNow s)) < 0"
    and slot: "to_size_t (to_int32 (to_size_t
                 (to_size_t (to_int32 (to_uint32 (int i - mFramesDecodedTillNow s)))
                    + int (length (mPendingFrames s)))))
               < int (length (mPendingFrames s))"
  shows "GetFramesByIdxList hw [i] s =
      Inr ([mPendingFrames s ! nat (to_size_t (to_int32 (to_size_t
                 (to_size_t (to_int32 (to_uint32 (int i - mFramesDecodedTillNow s)))
                    + int (length (mPendingFrames s))))))],
           (UnlockFrames s)\<lparr>mTargetFrames :=
               [mPendingFrames s ! nat (to_size_t (to_int32 (to_size_t
                 (to_size_t (to_int32 (to_uint32 (int i - mFramesDecodedTillNow s)))
                    + int (length (mPendingFrames s))))))],
             mbDiscontinuityFlag := False, mPreviousTargetIndex := int i\<rparr>)"
proof -
  let ?s0 = "(UnlockFrames s)\<lparr>mTargetFrames := []\<rparr>"
  have ss: "ShouldSeek (mDemuxer ?s0) (mPreviousTargetIndex ?s0) (int i) = Inr (False, r)"
    using noseek by (simp add: UnlockFrames_fields)
  have i32: "to_int32 (int i) = int i" using i by (intro to_int32_small) simp_all
  show ?thesis
    using ss valid neg slot i32
    by (simp add: GetFramesByIdxList_def resolve_index_def search_pending_def
        UnlockFrames_fields Let_def)
qed

lemma pending_request_repeats:
  assumes i: "i < 2 ^ 31"
    and noseek: "ShouldSeek (mDemuxer s) (mPreviousTargetIndex s) (int i) = Inr (False, r)"
    and valid: "r \<noteq> INVALID_INDEX_ENTRY"
    and neg: "to_int32 (to_uint32 (int i - mFramesDecodedTillNow s)) < 0"
    and slot: "to_size_t (to_int32 (to_size_t
                 (to_size_t (to_int32 (to_uint32 (int i - mFramesDecodedTillNow s)))
                    + int (length (mPendingFrames s)))))
               < int (length (mPendingFrames s))"
  shows "\<exists>f s' s''. GetFramesByIdxList hw [i] s = Inr ([f], s') \<and>
           GetFramesByIdxList hw [i] s' = Inr ([f], s'')"
proof -
  let ?f = "mPendingFrames s ! nat (to_size_t (to_int32 (to_size_t
                 (to_size_t (to_int32 (to_uint32 (int i - mFramesDecodedTillNow s)))
                    + int (length (mPendingFrames s))))))"
  let ?s' = "(UnlockFrames s)\<lparr>mTargetFrames := [?f],
             mbDiscontinuityFlag := False, mPreviousTargetIndex := int i\<rparr>"
  note first = pending_served[OF i noseek valid neg slot, of hw]
  from ShouldSeek_lookup[OF noseek valid]
  have look: "GetKeyNearestKeyFrameIndexForTarget (mDemuxer s) (int i) = Inr r" .
  have "int i \<noteq> - 1" by simp
  from ShouldSeek_same_index[OF look valid this]
  have noseek': "ShouldSeek (mDemuxer ?s') (mPreviousTargetIndex ?s') (int i) = Inr (False, r)"
    by (simp add: UnlockFrames_fields)
  have neg': "to_int32 (to_uint32 (int i - mFramesDecodedTillNow ?s')) < 0"
    using neg by (simp add: UnlockFrames_fields)
  have slot': "to_size_t (to_int32 (to_size_t
                 (to_size_t (to_int32 (to_uint32 (int i - mFramesDecodedTillNow ?s')))
                    + int (length (mPendingFrames ?s')))))
               < int (length (mPendingFrames ?s'))"
    using slot by (simp add: UnlockFrames_fields)
  from pending_served[OF i noseek' valid neg' slot', of hw]
  have "\<exists>s''. GetFramesByIdxList hw [i] ?s' = Inr ([?f], s'')"
    by (simp add: UnlockFrames_fields)
  with first show ?thesis by blast
qed

lemma step_discard:
  "(c - F + int (Suc r)) mod 2 ^ 32 = tv mod 2 ^ 32 \<Longrightarrow>
   (c - to_uint32 (F - 1) + int r) mod 2 ^ 32 = tv mod (2 ^ 32 :: int)"
proof -
  assume a: "(c - F + int (Suc r)) mod 2 ^ 32 = tv mod 2 ^ 32"
  have "(c - to_uint32 (F - 1) + int r) mod 2 ^ 32 = ((c + int r) - (F - 1) mod 2 ^ 32) mod 2 ^ 32"
    by (simp add: to_uint32_def algebra_simps)
  also have "\<dots> = ((c + int r) - (F - 1)) mod 2 ^ 32" by (rule mod_diff_right_eq)
  also have "(c + int r) - (F - 1) = c - F + int (Suc r)" by simp
  finally show ?thesis using a by simp
qed

lemma step_accept:
  "(c - F + int (Suc r)) mod 2 ^ 32 = tv mod 2 ^ 32 \<Longrightarrow>
   (c - F + int r) mod 2 ^ 32 = (tv - 1) mod (2 ^ 32 :: int)"
proof -
  assume a: "(c - F + int (Suc r)) mod 2 ^ 32 = tv mod 2 ^ 32"
  have "c - F + int r = (c - F + int (Suc r)) - 1" by simp
  then have "(c - F + int r) mod 2 ^ 32 = ((c - F + int (Suc r)) - 1) mod 2 ^ 32"
    by (rule arg_cong)
  also have "\<dots> = ((c - F + int (Suc r)) mod 2 ^ 32 - 1) mod 2 ^ 32"
    by (rule mod_diff_left_eq[symmetric])
  also have "\<dots> = (tv mod 2 ^ 32 - 1) mod 2 ^ 32" using a by simp
  also have "\<dots> = (tv - 1) mod 2 ^ 32" by (rule mod_diff_left_eq)
  finally show ?thesis .
qed

lemma step_found:
  "(c - F + int (Suc r)) mod 2 ^ 32 = 0 \<Longrightarrow> to_uint32 F = F \<Longrightarrow>
   F = to_uint32 (c + 1 + int r)"
proof -
  assume a: "(c - F + int (Suc r)) mod 2 ^ 32 = 0" and u: "to_uint32 F = F"
  have "c + 1 + int r = (c - F + int (Suc r)) + F" by simp
  then have "(c + 1 + int r) mod 2 ^ 32 = ((c - F + int (Suc r)) + F) mod 2 ^ 32"
    by (rule arg_cong)
  also have "\<dots> = ((c - F + int (Suc r)) mod 2 ^ 32 + F) mod 2 ^ 32"
    by (rule mod_add_left_eq[symmetric])
  also have "\<dots> = F mod 2 ^ 32" using a by simp
  finally show ?thesis using u by (simp add: to_uint32_def)
qed

lemma step_decode:
  "(c - F) mod 2 ^ 32 = tv mod 2 ^ 32 \<Longrightarrow>
   (c - to_uint32 (F + int n) + int n) mod 2 ^ 32 = tv mod (2 ^ 32 :: int)"
proof -
  assume a: "(c - F) mod 2 ^ 32 = tv mod 2 ^ 32"
  have "(c - to_uint32 (F + int n) + int n) mod 2 ^ 32 = ((c + int n) - (F + int n) mod 2 ^ 32) mod 2 ^ 32"
    by (simp add: to_uint32_def algebra_simps)
  also have "\<dots> = ((c + int n) - (F + int n)) mod 2 ^ 32" by (rule mod_diff_right_eq)
  finally show ?thesis using a by simp
qed

lemma to_uint32_idem: "to_uint32 (to_uint32 x) = to_uint32 x"
  by (simp add: to_uint32_def)



text \<open>
  The frame loop entered with a non-negative \<open>targetValue\<close>, an empty \<open>mPendingFrames\<close> and
  \<open>c - mFramesDecodedTillNow + r = targetValue\<close> modulo \<open>2 ^ 32\<close>, where \<open>r\<close> frames of the
  decode call are still to be fetched: when it finds the target, \<open>mFramesDecodedTillNow\<close> is
  \<open>c + 1\<close> plus the number of pending frames.
\<close>

lemma frame_loop_nonneg:
  assumes "0 \<le> tv" "mPendingFrames s = []"
    and "(c - mFramesDecodedTillNow s + int r) mod 2 ^ 32 = tv mod 2 ^ 32"
    and "to_uint32 (mFramesDecodedTillNow s) = mFramesDecodedTillNow s"
  shows "mDemuxer (snd (snd (frame_loop r tv s))) = mDemuxer s \<and>
     mPreviousTargetIndex (snd (snd (frame_loop r tv s))) = mPreviousTargetIndex s \<and>
     (fst (frame_loop r tv s) \<longrightarrow>
        mFramesDecodedTillNow (snd (snd (frame_loop r tv s))) =
          to_uint32 (c + 1 + int (length (mPendingFrames (snd (snd (frame_loop r tv s))))))) \<and>
     (\<not> fst (frame_loop r tv s) \<longrightarrow>
        0 \<le> fst (snd (frame_loop r tv s)) \<and>
        mPendingFrames (snd (snd (frame_loop r tv s))) = [] \<and>
        mTargetFrames (snd (snd (frame_loop r tv s))) = mTargetFrames s \<and>
        (c - mFramesDecodedTillNow (snd (snd (frame_loop r tv s)))) mod 2 ^ 32
           = fst (snd (frame_loop r tv s)) mod 2 ^ 32 \<and>
        to_uint32 (mFramesDecodedTillNow (snd (snd (frame_loop r tv s))))
           = mFramesDecodedTillNow (snd (snd (frame_loop r tv s))))"
  using assms
proof (induction r arbitrary: tv s)
  case 0
  then show ?case by simp
next
  case (Suc r)
  let ?f = "fst (SeekUtils_GetFrame True s)"
  let ?s1 = "snd (SeekUtils_GetFrame True s)"
  let ?F = "mFramesDecodedTillNow s"
  note inv = Suc.prems(3)
  show ?case
  proof (cases "timestamp ?f \<in> set (mPreviouslyDecodedFramesPTS s)")
    case seen: True
    let ?s2 = "(UnlockFrame ?f ?s1)\<lparr>mFramesDecodedTillNow := to_uint32 (?F - 1)\<rparr>"
    have eq: "frame_loop (Suc r) tv s = frame_loop r tv ?s2"
      using seen by (simp add: case_prod_unfold Let_def)
    have "mPendingFrames ?s2 = []" using Suc.prems(2) by simp
    moreover have "(c - mFramesDecodedTillNow ?s2 + int r) mod 2 ^ 32 = tv mod 2 ^ 32"
      using step_discard[OF inv] by simp
    moreover have "to_uint32 (mFramesDecodedTillNow ?s2) = mFramesDecodedTillNow ?s2"
      by (simp add: to_uint32_idem)
    ultimately show ?thesis
      unfolding eq using Suc.IH[of tv ?s2] Suc.prems(1) by simp
  next
    case fresh: False
    let ?s2 = "?s1\<lparr>mPreviouslyDecodedFramesPTS := mPreviouslyDecodedFramesPTS ?s1 @ [timestamp ?f]\<rparr>"
    show ?thesis
    proof (cases "timestamp ?f < mTargetFramePTS s")
      case early: True
      let ?s3 = "(UnlockFrame ?f ?s2)\<lparr>mFramesDecodedTillNow := to_uint32 (?F - 1)\<rparr>"
      have eq: "frame_loop (Suc r) tv s = frame_loop r tv ?s3"
        using fresh early by (simp add: case_prod_unfold Let_def)
      have "mPendingFrames ?s3 = []" using Suc.prems(2) by simp
      moreover have "(c - mFramesDecodedTillNow ?s3 + int r) mod 2 ^ 32 = tv mod 2 ^ 32"
        using step_discard[OF inv] by simp
      moreover have "to_uint32 (mFramesDecodedTillNow ?s3) = mFramesDecodedTillNow ?s3"
        by (simp add: to_uint32_idem)
      ultimately show ?thesis
        unfolding eq using Suc.IH[of tv ?s3] Suc.prems(1) by simp
    next
      case late: False
      show ?thesis
      proof (cases "tv = 0")
        case True
        let ?s3 = "?s2\<lparr>mTargetFrames := mTargetFrames ?s2 @ [?f]\<rparr>"
        have eq: "frame_loop (Suc r) tv s = (True, tv, push_pending r ?s3)"
          using fresh late True by (simp add: case_prod_unfold Let_def)
        note pp = push_pending_fields[of r ?s3]
        have len: "length (mPendingFrames (push_pending r ?s3)) = r"
          using pp Suc.prems(2) by simp
        have "?F = to_uint32 (c + 1 + int r)"
          using step_found[of c ?F r] inv True Suc.prems(4) by simp
        then show ?thesis unfolding eq using pp len by simp
      next
        case False
        let ?s3 = "UnlockFrame ?f ?s2"
        have eq: "frame_loop (Suc r) tv s = frame_loop r (tv - 1) ?s3"
          using fresh late False by (simp add: case_prod_unfold Let_def)
        have "0 \<le> tv - 1" using False Suc.prems(1) by simp
        moreover have "mPendingFrames ?s3 = []" using Suc.prems(2) by simp
        moreover have "(c - mFramesDecodedTillNow ?s3 + int r) mod 2 ^ 32 = (tv - 1) mod 2 ^ 32"
          using step_accept[OF inv] by simp
        moreover have "to_uint32 (mFramesDecodedTillNow ?s3) = mFramesDecodedTillNow ?s3"
          using Suc.prems(4) by simp
        ultimately show ?thesis
          unfolding eq using Suc.IH[of "tv - 1" ?s3] by simp
      qed
    qed
  qed
qed



lemma decode_packet_nonneg:
  assumes tv: "0 \<le> tv" and pend: "mPendingFrames s = []"
    and inv: "(c - mFramesDecodedTillNow s) mod 2 ^ 32 = tv mod 2 ^ 32"
  shows "mDemuxer (snd (snd (decode_packet hw pd k tv s))) = mDemuxer s \<and>
     mPreviousTargetIndex (snd (snd (decode_packet hw pd k tv s))) = mPreviousTargetIndex s \<and>
     (fst (decode_packet hw pd k tv s) \<longrightarrow>
        mFramesDecodedTillNow (snd (snd (decode_packet hw pd k tv s))) =
          to_uint32 (c + 1 + int (length (mPendingFrames (snd (snd (decode_packet hw pd k tv s))))))) \<and>
     (\<not> fst (decode_packet hw pd k tv s) \<longrightarrow>
        0 \<le> fst (snd (decode_packet hw pd k tv s)) \<and>
        mPendingFrames (snd (snd (decode_packet hw pd k tv s))) = [] \<and>
        mTargetFrames (snd (snd (decode_packet hw pd k tv s))) = mTargetFrames s \<and>
        (c - mFramesDecodedTillNow (snd (snd (decode_packet hw pd k tv s)))) mod 2 ^ 32
           = fst (snd (decode_packet hw pd k tv s)) mod 2 ^ 32)"
proof -
  let ?s1 = "if k \<and> mbDiscontinuityFlag s then s\<lparr>mTargetFramePTS := to_int32 (pts pd)\<rparr> else s"
  let ?d = "Decode hw (bsl_data empty_PacketData) (bsl empty_PacketData)
              {CUVID_PKT_DISCONTINUITY} (pts empty_PacketData) (mDecoder ?s1)"
  let ?s2 = "if mbDiscontinuityFlag ?s1
             then (drain_frames (fst ?d) (?s1\<lparr>mDecoder := snd ?d\<rparr>))
                    \<lparr>mPendingFrames := [], mbDiscontinuityFlag := False\<rparr>
             else ?s1"
  let ?eos = "bsl pd = 0 \<and> bsl_data pd = 0"
  let ?s3 = "if ?eos then ?s2\<lparr>mbEOSreached := True\<rparr> else ?s2"
  let ?e = "Decode hw (bsl_data pd) (bsl pd)
              (if ?eos then {CUVID_PKT_ENDOFSTREAM} else {CUVID_PKT_TIMESTAMP}) (pts pd) (mDecoder ?s3)"
  let ?s4 = "?s3\<lparr>mDecoder := snd ?e,
                mFramesDecodedTillNow := to_uint32 (mFramesDecodedTillNow ?s3 + int (fst ?e))\<rparr>"
  have eq: "decode_packet hw pd k tv s = frame_loop (fst ?e) tv ?s4"
    unfolding decode_packet_def by (simp add: case_prod_unfold Let_def)
  have f3: "mFramesDecodedTillNow ?s3 = mFramesDecodedTillNow s"
    "mDemuxer ?s3 = mDemuxer s" "mPreviousTargetIndex ?s3 = mPreviousTargetIndex s"
    "mPendingFrames ?s3 = []" "mTargetFrames ?s3 = mTargetFrames s"
    using pend by (simp_all add: drain_frames_spec)
  have a: "mPendingFrames ?s4 = []" using f3 by simp
  have b: "(c - mFramesDecodedTillNow ?s4 + int (fst ?e)) mod 2 ^ 32 = tv mod 2 ^ 32"
    using step_decode[OF inv, of "fst ?e"] f3(1) by simp
  have u: "to_uint32 (mFramesDecodedTillNow ?s4) = mFramesDecodedTillNow ?s4"
    by (simp add: to_uint32_idem)
  have g: "mDemuxer ?s4 = mDemuxer s" "mPreviousTargetIndex ?s4 = mPreviousTargetIndex s"
    "mTargetFrames ?s4 = mTargetFrames s"
    using f3 by simp_all
  from frame_loop_nonneg[OF tv a b u] show ?thesis
    unfolding eq g by blast
qed

lemma decode_loop_nonneg:
  assumes "0 \<le> tv" "mPendingFrames s = []"
    and "(c - mFramesDecodedTillNow s) mod 2 ^ 32 = tv mod 2 ^ 32"
  shows "mDemuxer (snd (snd (decode_loop hw ps k tv s))) = mDemuxer s \<and>
     mPreviousTargetIndex (snd (snd (decode_loop hw ps k tv s))) = mPreviousTargetIndex s \<and>
     (fst (decode_loop hw ps k tv s) \<longrightarrow>
        mFramesDecodedTillNow (snd (snd (decode_loop hw ps k tv s))) =
          to_uint32 (c + 1 + int (length (mPendingFrames (snd (snd (decode_loop hw ps k tv s))))))) \<and>
     (\<not> fst (decode_loop hw ps k tv s) \<longrightarrow>
        mTargetFrames (snd (snd (decode_loop hw ps k tv s))) = mTargetFrames s)"
  using assms
proof (induction ps arbitrary: k tv s)
  case Nil
  let ?pd = "empty_PacketData\<lparr>key := (if k then 1 else 0)\<rparr>"
  from decode_packet_nonneg[OF Nil.prems, of hw ?pd k]
  show ?case by (simp add: case_prod_unfold Let_def)
next
  case (Cons p ps)
  let ?k = "key p \<noteq> 0"
  let ?pd = "p\<lparr>key := (if ?k then 1 else 0)\<rparr>"
  let ?r = "decode_packet hw ?pd ?k tv s"
  note d = decode_packet_nonneg[OF Cons.prems, of hw ?pd ?k]
  show ?case
  proof (cases "(bsl ?pd = 0 \<and> bsl_data ?pd = 0) \<or> fst ?r")
    case True
    then have "decode_loop hw (p # ps) k tv s = (fst ?r, ps, snd (snd ?r))"
      by (auto simp: case_prod_unfold Let_def)
    with d show ?thesis by simp
  next
    case False
    then have eq: "decode_loop hw (p # ps) k tv s
        = decode_loop hw ps ?k (fst (snd ?r)) (snd (snd ?r))"
      by (auto simp: case_prod_unfold Let_def)
    from False d have pre: "0 \<le> fst (snd ?r)" "mPendingFrames (snd (snd ?r)) = []"
      "(c - mFramesDecodedTillNow (snd (snd ?r))) mod 2 ^ 32 = fst (snd ?r) mod 2 ^ 32"
      and keep: "mTargetFrames (snd (snd ?r)) = mTargetFrames s"
        "mDemuxer (snd (snd ?r)) = mDemuxer s"
        "mPreviousTargetIndex (snd (snd ?r)) = mPreviousTargetIndex s"
      by simp_all
    from Cons.IH[OF pre, of ?k] keep show ?thesis unfolding eq by simp
  qed
qed



lemma Seek_lookup:
  "Seek n dm = Inr dm' \<Longrightarrow>
   GetKeyNearestKeyFrameIndexForTarget dm' idx = GetKeyNearestKeyFrameIndexForTarget dm idx"
  by (auto simp: Seek_def GetKey_static split: if_splits option.splits)



lemma to_uint32_cong: "to_uint32 x mod 2 ^ 32 = x mod 2 ^ 32"
  by (simp add: to_uint32_def)

lemma target_value_cong:
  "(c - F) mod 2 ^ 32 = to_int32 (to_uint32 (c - F)) mod 2 ^ 32"
  by (simp only: to_int32_cong to_uint32_cong)

text \<open>
  A request that enters the decode loop with a non-negative \<open>targetValue\<close> and returns a
  frame leaves \<open>mFramesDecodedTillNow\<close> at the index plus one plus the number of pending
  frames, whether or not it began with a seek.
\<close>

lemma request_by_decode:
  assumes i: "i < 2 ^ 31"
    and ss: "ShouldSeek (mDemuxer s) (mPreviousTargetIndex s) (int i) = Inr (b, r)"
    and valid: "r \<noteq> INVALID_INDEX_ENTRY"
    and tv0: "0 \<le> to_int32 (to_uint32 (int i -
                 (if b then to_uint32 r else mFramesDecodedTillNow s)))"
    and res: "resolve_index hw i s = Inr s'"
    and fr: "mTargetFrames s' \<noteq> mTargetFrames s"
  shows "mPreviousTargetIndex s' = int i \<and>
     mFramesDecodedTillNow s' = to_uint32 (int i + 1 + int (length (mPendingFrames s'))) \<and>
     GetKeyNearestKeyFrameIndexForTarget (mDemuxer s') (int i) = Inr r"
proof -
  from ShouldSeek_lookup[OF ss valid]
  have look: "GetKeyNearestKeyFrameIndexForTarget (mDemuxer s) (int i) = Inr r" .
  have i32: "to_int32 (int i) = int i" using i by (intro to_int32_small) simp_all
  obtain s1 where
    s1: "(if b then
            (case Seek i (mDemuxer s) of
               Inl e \<Rightarrow> Inl e
             | Inr dm \<Rightarrow> Inr (s\<lparr>mDemuxer := dm, mFramesDecodedTillNow := to_uint32 r,
                              mbDiscontinuityFlag := True, mPendingFrames := [],
                              mPreviouslyDecodedFramesPTS := []\<rparr>))
          else Inr (s\<lparr>mbDiscontinuityFlag := False\<rparr>)) = (Inr s1 :: seek_error + 'a SeekUtils)"
    using res ss valid look
    by (cases b; cases "Seek i (mDemuxer s)") (simp_all add: resolve_index_def)
  have f1: "mFramesDecodedTillNow s1 = (if b then to_uint32 r else mFramesDecodedTillNow s)"
    and t1: "mTargetFrames s1 = mTargetFrames s"
    and k1: "GetKeyNearestKeyFrameIndexForTarget (mDemuxer s1) (int i) = Inr r"
    using s1 look by (auto split: if_splits sum.splits simp: Seek_lookup)
  let ?tv = "to_int32 (to_uint32 (int i - mFramesDecodedTillNow s1))"
  have tv: "0 \<le> ?tv" using tv0 f1 by simp
  let ?s2 = "s1\<lparr>mPendingFrames := []\<rparr>"
  have sp: "search_pending ?tv s1 = Inr (False, ?tv, ?s2)"
    using tv by (simp add: search_pending_def)
  let ?d = "decode_loop hw (unread (mDemuxer s1)) False ?tv ?s2"
  have pend: "mPendingFrames ?s2 = []" by simp
  have inv: "(int i - mFramesDecodedTillNow ?s2) mod 2 ^ 32 = ?tv mod 2 ^ 32"
    using target_value_cong[of "int i" "mFramesDecodedTillNow s1"] by simp
  note dl = decode_loop_nonneg[OF tv pend inv, of hw "unread (mDemuxer s1)" False]
  let ?s3 = "snd (snd ?d)"
  let ?s4 = "?s3\<lparr>mDemuxer := (mDemuxer ?s3)\<lparr>unread := fst (snd ?d)\<rparr>\<rparr>"
  have "resolve_index hw i s = Inr (if fst ?d then ?s4\<lparr>mPreviousTargetIndex := int i\<rparr> else ?s4)"
    using ss valid look s1 sp i32
    by (cases b; cases "Seek i (mDemuxer s)")
       (simp_all add: resolve_index_def case_prod_unfold Let_def)
  with res have s': "s' = (if fst ?d then ?s4\<lparr>mPreviousTargetIndex := int i\<rparr> else ?s4)"
    by simp
  have found: "fst ?d"
  proof (rule ccontr)
    assume nf: "\<not> fst ?d"
    with dl have "mTargetFrames ?s3 = mTargetFrames s" using t1 by simp
    with s' nf fr show False by simp
  qed
  have dm3: "mDemuxer ?s3 = mDemuxer s1" using dl by simp
  have "GetKeyNearestKeyFrameIndexForTarget (mDemuxer s') (int i) = Inr r"
    using s' found dm3 k1 by (simp add: GetKey_static)
  moreover have "mFramesDecodedTillNow s' = to_uint32 (int i + 1 + int (length (mPendingFrames s')))"
    using s' found dl by simp
  moreover have "mPreviousTargetIndex s' = int i" using s' found by simp
  ultimately show ?thesis by simp
qed

text \<open>
  A request that computes a negative \<open>targetValue\<close> and returns a frame did not seek and
  found a slot in \<open>mPendingFrames\<close>.
\<close>

lemma request_negative:
  assumes ss: "ShouldSeek (mDemuxer s) (mPreviousTargetIndex s) (int i) = Inr (b, r)"
    and valid: "r \<noteq> INVALID_INDEX_ENTRY"
    and neg: "to_int32 (to_uint32 (int i -
                 (if b then to_uint32 r else mFramesDecodedTillNow s))) < 0"
    and res: "resolve_index hw i s = Inr s'"
    and fr: "mTargetFrames s' \<noteq> mTargetFrames s"
  shows "\<not> b \<and>
     to_size_t (to_int32 (to_size_t
        (to_size_t (to_int32 (to_uint32 (int i - mFramesDecodedTillNow s)))
           + int (length (mPendingFrames s)))))
       < int (length (mPendingFrames s))"
proof -
  from ShouldSeek_lookup[OF ss valid]
  have look: "GetKeyNearestKeyFrameIndexForTarget (mDemuxer s) (int i) = Inr r" .
  obtain s1 where
    s1: "(if b then
            (case Seek i (mDemuxer s) of
               Inl e \<Rightarrow> Inl e
             | Inr dm \<Rightarrow> Inr (s\<lparr>mDemuxer := dm, mFramesDecodedTillNow := to_uint32 r,
                              mbDiscontinuityFlag := True, mPendingFrames := [],
                              mPreviouslyDecodedFramesPTS := []\<rparr>))
          else Inr (s\<lparr>mbDiscontinuityFlag := False\<rparr>)) = (Inr s1 :: seek_error + 'a SeekUtils)"
    using res ss valid look
    by (cases b; cases "Seek i (mDemuxer s)") (simp_all add: resolve_index_def)
  have f1: "mFramesDecodedTillNow s1 = (if b then to_uint32 r else mFramesDecodedTillNow s)"
    and t1: "mTargetFrames s1 = mTargetFrames s"
    and p1: "mPendingFrames s1 = (if b then [] else mPendingFrames s)"
    using s1 by (auto split: if_splits sum.splits)
  let ?tv = "to_int32 (to_uint32 (int i - mFramesDecodedTillNow s1))"
  have tv: "?tv < 0" using neg f1 by simp
  let ?slot = "to_size_t (to_int32 (to_size_t (to_size_t ?tv + int (length (mPendingFrames s1)))))"
  have main: "?slot < int (length (mPendingFrames s1))"
  proof (rule ccontr)
    assume out: "\<not> ?slot < int (length (mPendingFrames s1))"
    show False
    proof (cases "?slot \<le> int (length (mPendingFrames s1))")
      case True
      with out tv have "search_pending ?tv s1 = Inl PendingIndexOutOfRange"
        by (simp add: search_pending_def Let_def)
      then have "resolve_index hw i s = Inl PendingIndexOutOfRange"
        using ss valid look s1
        by (cases b; cases "Seek i (mDemuxer s)") (simp_all add: resolve_index_def)
      with res show False by simp
    next
      case False
      with tv have sp: "search_pending ?tv s1 = Inr (False, ?tv, s1)"
        by (simp add: search_pending_def Let_def)
      let ?d = "decode_loop hw (unread (mDemuxer s1)) False ?tv s1"
      note dl = decode_loop_negative[OF tv, of hw "unread (mDemuxer s1)" False s1]
      let ?s3 = "snd (snd ?d)"
      let ?s4 = "?s3\<lparr>mDemuxer := (mDemuxer ?s3)\<lparr>unread := fst (snd ?d)\<rparr>\<rparr>"
      have "resolve_index hw i s = Inr ?s4"
        using ss valid look s1 sp dl
        by (cases b; cases "Seek i (mDemuxer s)")
           (simp_all add: resolve_index_def case_prod_unfold Let_def)
      with res have "mTargetFrames s' = mTargetFrames s1" using dl by auto
      with fr t1 show False by simp
    qed
  qed
  have nb: "\<not> b"
  proof
    assume b
    with p1 main have "?slot < 0" by simp
    then show False by (simp add: to_size_t_def)
  qed
  with main p1 f1 show ?thesis by simp
qed



text \<open>
  Claim C8, amended. Let a request for an index below \<open>2 ^ 31\<close> through
  \<open>GetFramesByIdxList\<close> return a frame, and let the same index be requested again with no
  seek or reconfiguration in between (fewer than \<open>2 ^ 31 - 1\<close> frames pending). When the
  first request was served from \<open>mPendingFrames\<close>, that is \<open>ShouldSeek\<close> asked for no seek
  and the index lay before the frames already decoded, the second request returns the same
  frame, hence the same timestamp. In every other case, where the first request found its
  frame by decoding, after a seek or as a forward continuation, the second request returns
  no frame. In both cases \<open>IsSeekBackwards\<close> is true for the index after the first request.
\<close>

theorem repeated_request:
  "i < 2 ^ 31 \<and>
   ShouldSeek (mDemuxer s) (mPreviousTargetIndex s) (int i) = Inr (b, r) \<and>
   GetFramesByIdxList hw [i] s = Inr (fs, s') \<and> fs \<noteq> [] \<and>
   length (mPendingFrames s') + 1 < 2 ^ 31 \<longrightarrow>
     (if \<not> b \<and> to_int32 (to_uint32 (int i - mFramesDecodedTillNow s)) < 0
      then \<exists>f s''. fs = [f] \<and> f \<in> set (mPendingFrames s) \<and>
             GetFramesByIdxList hw [i] s' = Inr ([f], s'')
      else \<exists>s''. GetFramesByIdxList hw [i] s' = Inr ([], s'')) \<and>
     fst (IsSeekBackwards (int i) s')"
proof (intro impI, elim conjE)
  assume i: "i < 2 ^ 31"
    and ss: "ShouldSeek (mDemuxer s) (mPreviousTargetIndex s) (int i) = Inr (b, r)"
    and first: "GetFramesByIdxList hw [i] s = Inr (fs, s')"
    and fs: "fs \<noteq> []"
    and pend: "length (mPendingFrames s') + 1 < 2 ^ 31"
  let ?s0 = "(UnlockFrames s)\<lparr>mTargetFrames := []\<rparr>"
  let ?tvs = "to_int32 (to_uint32 (int i - mFramesDecodedTillNow s))"
  have ss0: "ShouldSeek (mDemuxer ?s0) (mPreviousTargetIndex ?s0) (int i) = Inr (b, r)"
    using ss by (simp add: UnlockFrames_fields)
  from first have res: "resolve_index hw i ?s0 = Inr s'" and tf: "fs = mTargetFrames s'"
    by (auto simp: GetFramesByIdxList_def split: sum.splits)
  from fs tf have ch: "mTargetFrames s' \<noteq> mTargetFrames ?s0" by simp
  have valid: "r \<noteq> INVALID_INDEX_ENTRY"
  proof
    assume "r = INVALID_INDEX_ENTRY"
    with resolve_index_skip[OF ss0, of hw] res ch show False by simp
  qed
  let ?tv1 = "to_int32 (to_uint32 (int i -
                 (if b then to_uint32 r else mFramesDecodedTillNow ?s0)))"
  show "(if \<not> b \<and> ?tvs < 0
      then \<exists>f s''. fs = [f] \<and> f \<in> set (mPendingFrames s) \<and>
             GetFramesByIdxList hw [i] s' = Inr ([f], s'')
      else \<exists>s''. GetFramesByIdxList hw [i] s' = Inr ([], s'')) \<and>
     fst (IsSeekBackwards (int i) s')"
  proof (cases "0 \<le> ?tv1")
    case True
    from request_by_decode[OF i ss0 valid True res ch]
    have prev: "mPreviousTargetIndex s' = int i"
      and fdtn: "mFramesDecodedTillNow s' = to_uint32 (int i + 1 + int (length (mPendingFrames s')))"
      and look: "GetKeyNearestKeyFrameIndexForTarget (mDemuxer s') (int i) = Inr r"
      by simp_all
    from second_request_after_decode[OF i prev fdtn pend look valid, of hw]
    have again: "\<exists>s''. GetFramesByIdxList hw [i] s' = Inr ([], s'')" by blast
    have cond: "\<not> (\<not> b \<and> ?tvs < 0)" using True by (auto simp: UnlockFrames_fields)
    have "fst (IsSeekBackwards (int i) s')" using prev by (simp add: IsSeekBackwards_def)
    with again cond show ?thesis by auto
  next
    case False
    then have neg: "?tv1 < 0" by simp
    from request_negative[OF ss0 valid neg res ch]
    have nb: "\<not> b"
      and slot0: "to_size_t (to_int32 (to_size_t
          (to_size_t (to_int32 (to_uint32 (int i - mFramesDecodedTillNow ?s0)))
             + int (length (mPendingFrames ?s0)))))
         < int (length (mPendingFrames ?s0))"
      by simp_all
    let ?slot = "to_size_t (to_int32 (to_size_t (to_size_t ?tvs + int (length (mPendingFrames s)))))"
    from slot0 have slot: "?slot < int (length (mPendingFrames s))"
      by (simp add: UnlockFrames_fields)
    from neg nb have tvs: "?tvs < 0" by (simp add: UnlockFrames_fields)
    from ss nb have noseek: "ShouldSeek (mDemuxer s) (mPreviousTargetIndex s) (int i) = Inr (False, r)"
      by simp
    let ?f = "mPendingFrames s ! nat ?slot"
    let ?sx = "(UnlockFrames s)\<lparr>mTargetFrames := [?f],
             mbDiscontinuityFlag := False, mPreviousTargetIndex := int i\<rparr>"
    from pending_served[OF i noseek valid tvs slot, of hw] first
    have fsf: "fs = [?f]" and sx: "s' = ?sx" by simp_all
    have "0 \<le> ?slot" by (simp add: to_size_t_def)
    with slot have mem: "?f \<in> set (mPendingFrames s)" by (intro nth_mem) simp
    from ShouldSeek_lookup[OF noseek valid]
    have look: "GetKeyNearestKeyFrameIndexForTarget (mDemuxer s) (int i) = Inr r" .
    have "int i \<noteq> - 1" by simp
    from ShouldSeek_same_index[OF look valid this]
    have noseek': "ShouldSeek (mDemuxer ?sx) (mPreviousTargetIndex ?sx) (int i) = Inr (False, r)"
      by (simp add: UnlockFrames_fields)
    have tvs': "to_int32 (to_uint32 (int i - mFramesDecodedTillNow ?sx)) < 0"
      using tvs by (simp add: UnlockFrames_fields)
    have slot': "to_size_t (to_int32 (to_size_t
                 (to_size_t (to_int32 (to_uint32 (int i - mFramesDecodedTillNow ?sx)))
                    + int (length (mPendingFrames ?sx)))))
               < int (length (mPendingFrames ?sx))"
      using slot by (simp add: UnlockFrames_fields)
    from pending_served[OF i noseek' valid tvs' slot', of hw]
    have "\<exists>s''. GetFramesByIdxList hw [i] ?sx = Inr ([?f], s'')"
      by (simp add: UnlockFrames_fields)
    with sx have again: "\<exists>s''. GetFramesByIdxList hw [i] s' = Inr ([?f], s'')" by simp
    have "fst (IsSeekBackwards (int i) s')" using sx by (simp add: IsSeekBackwards_def)
    with again fsf mem nb tvs show ?thesis by auto
  qed
qed



theorem repeated_request_witness:
  "(\<exists>fs s1 gs s2.
      GetFramesByIdxList (sample_parser 2) [1] (SeekUtils_new sample_demuxer sample_decoder)
        = Inr (fs, s1) \<and>
      GetFramesByIdxList (sample_parser 2) [2] s1 = Inr (gs, s2) \<and>
      map timestamp gs = [2] \<and>
      (\<exists>s3. GetFramesByIdxList (sample_parser 2) [2] s2 = Inr (gs, s3))) \<and>
   (\<exists>fs s1.
      GetFramesByIdxList (sample_parser 0) [1] (SeekUtils_new sample_demuxer sample_decoder)
        = Inr (fs, s1) \<and>
      map timestamp fs = [1] \<and>
      (\<exists>s2. GetFramesByIdxList (sample_parser 0) [1] s1 = Inr ([], s2)) \<and>
      fst (IsSeekBackwards 1 s1)) \<and>
   (\<exists>fs s1 gs s2.
      GetFramesByIdxList (sample_parser 0) [0] (SeekUtils_new sample_demuxer sample_decoder)
        = Inr (fs, s1) \<and>
      GetFramesByIdxList (sample_parser 0) [1] s1 = Inr (gs, s2) \<and>
      map timestamp gs = [1] \<and>
      (\<exists>s3. GetFramesByIdxList (sample_parser 0) [1] s2 = Inr ([], s3)))"
proof -
  let ?new = "SeekUtils_new sample_demuxer sample_decoder"
  have i1: "(1::nat) < 2 ^ 31" and i2: "(2::nat) < 2 ^ 31" by simp_all
  have a: "case GetFramesByIdxList (sample_parser 2) [1] ?new of
             Inl e \<Rightarrow> False
           | Inr (fs, s1) \<Rightarrow>
               ShouldSeek (mDemuxer s1) (mPreviousTargetIndex s1) (int 2) = Inr (False, 0) \<and>
               to_int32 (to_uint32 (int 2 - mFramesDecodedTillNow s1)) < 0 \<and>
               (case GetFramesByIdxList (sample_parser 2) [2] s1 of
                  Inl e \<Rightarrow> False
                | Inr (gs, s2) \<Rightarrow> map timestamp gs = [2] \<and> length (mPendingFrames s2) = 1)"
    by code_simp
  then obtain fs s1 where
    a1: "GetFramesByIdxList (sample_parser 2) [1] ?new = Inr (fs, s1)"
    and a2: "ShouldSeek (mDemuxer s1) (mPreviousTargetIndex s1) (int 2) = Inr (False, 0)"
      "to_int32 (to_uint32 (int 2 - mFramesDecodedTillNow s1)) < 0"
    and a3: "case GetFramesByIdxList (sample_parser 2) [2] s1 of
                  Inl e \<Rightarrow> False
                | Inr (gs, s2) \<Rightarrow> map timestamp gs = [2] \<and> length (mPendingFrames s2) = 1"
    by (cases "GetFramesByIdxList (sample_parser 2) [1] ?new") auto
  from a3 obtain gs s2 where
    a4: "GetFramesByIdxList (sample_parser 2) [2] s1 = Inr (gs, s2)"
    and a5: "map timestamp gs = [2]" "length (mPendingFrames s2) = 1"
    by (cases "GetFramesByIdxList (sample_parser 2) [2] s1") auto
  from a5 have a6: "gs \<noteq> []" "length (mPendingFrames s2) + 1 < 2 ^ 31" by auto
  from repeated_request[where i = 2 and s = s1 and b = False and r = 0
      and hw = "sample_parser 2" and fs = gs and s' = s2] i2 a2 a4 a6
  have "\<exists>f s''. gs = [f] \<and> GetFramesByIdxList (sample_parser 2) [2] s2 = Inr ([f], s'')"
    by auto
  then have part1: "\<exists>s3. GetFramesByIdxList (sample_parser 2) [2] s2 = Inr (gs, s3)" by auto
  have b: "case GetFramesByIdxList (sample_parser 0) [1] ?new of
             Inl e \<Rightarrow> False
           | Inr (fs, s1) \<Rightarrow> map timestamp fs = [1] \<and> mPendingFrames s1 = []"
    by code_simp
  then obtain hs u1 where
    b1: "GetFramesByIdxList (sample_parser 0) [1] ?new = Inr (hs, u1)"
    and b2: "map timestamp hs = [1]" "mPendingFrames u1 = []"
    by (cases "GetFramesByIdxList (sample_parser 0) [1] ?new") auto
  from b2 have b3: "hs \<noteq> []" "length (mPendingFrames u1) + 1 < 2 ^ 31" by auto
  have ss: "ShouldSeek (mDemuxer ?new) (mPreviousTargetIndex ?new) (int 1) = Inr (True, 0)"
    by code_simp
  from repeated_request[where i = 1 and s = ?new and b = True and r = 0
      and hw = "sample_parser 0" and fs = hs and s' = u1] i1 ss b1 b3
  have part2: "(\<exists>s2. GetFramesByIdxList (sample_parser 0) [1] u1 = Inr ([], s2)) \<and>
      fst (IsSeekBackwards (int 1) u1)"
    by simp
  have c: "case GetFramesByIdxList (sample_parser 0) [0] ?new of
             Inl e \<Rightarrow> False
           | Inr (fs, s1) \<Rightarrow>
               ShouldSeek (mDemuxer s1) (mPreviousTargetIndex s1) (int 1) = Inr (False, 0) \<and>
               \<not> to_int32 (to_uint32 (int 1 - mFramesDecodedTillNow s1)) < 0 \<and>
               (case GetFramesByIdxList (sample_parser 0) [1] s1 of
                  Inl e \<Rightarrow> False
                | Inr (gs, s2) \<Rightarrow> map timestamp gs = [1] \<and> mPendingFrames s2 = [])"
    by code_simp
  then obtain ks v1 where
    c1: "GetFramesByIdxList (sample_parser 0) [0] ?new = Inr (ks, v1)"
    and c2: "ShouldSeek (mDemuxer v1) (mPreviousTargetIndex v1) (int 1) = Inr (False, 0)"
      "\<not> to_int32 (to_uint32 (int 1 - mFramesDecodedTillNow v1)) < 0"
    and c3: "case GetFramesByIdxList (sample_parser 0) [1] v1 of
                  Inl e \<Rightarrow> False
                | Inr (gs, s2) \<Rightarrow> map timestamp gs = [1] \<and> mPendingFrames s2 = []"
    by (cases "GetFramesByIdxList (sample_parser 0) [0] ?new") auto
  from c3 obtain ls v2 where
    c4: "GetFramesByIdxList (sample_parser 0) [1] v1 = Inr (ls, v2)"
    and c5: "map timestamp ls = [1]" "mPendingFrames v2 = []"
    by (cases "GetFramesByIdxList (sample_parser 0) [1] v1") auto
  from c5 have c6: "ls \<noteq> []" "length (mPendingFrames v2) + 1 < 2 ^ 31" by auto
  from repeated_request[where i = 1 and s = v1 and b = False and r = 0
      and hw = "sample_parser 0" and fs = ls and s' = v2] i1 c2 c4 c6
  have part3: "\<exists>s3. GetFramesByIdxList (sample_parser 0) [1] v2 = Inr ([], s3)"
    by simp
  have w1: "\<exists>fs s1 gs s2.
      GetFramesByIdxList (sample_parser 2) [1] ?new = Inr (fs, s1) \<and>
      GetFramesByIdxList (sample_parser 2) [2] s1 = Inr (gs, s2) \<and>
      map timestamp gs = [2] \<and>
      (\<exists>s3. GetFramesByIdxList (sample_parser 2) [2] s2 = Inr (gs, s3))"
    by (insert a1 a4 a5(1) part1, rule exI[where x = fs], rule exI[where x = s1],
        rule exI[where x = gs], rule exI[where x = s2]) simp
  have w2: "\<exists>fs s1.
      GetFramesByIdxList (sample_parser 0) [1] ?new = Inr (fs, s1) \<and>
      map timestamp fs = [1] \<and>
      (\<exists>s2. GetFramesByIdxList (sample_parser 0) [1] s1 = Inr ([], s2)) \<and>
      fst (IsSeekBackwards 1 s1)"
    by (insert b1 b2(1) part2, rule exI[where x = hs], rule exI[where x = u1]) simp
  have w3: "\<exists>fs s1 gs s2.
      GetFramesByIdxList (sample_parser 0) [0] ?new = Inr (fs, s1) \<and>
      GetFramesByIdxList (sample_parser 0) [1] s1 = Inr (gs, s2) \<and>
      map timestamp gs = [1] \<and>
      (\<exists>s3. GetFramesByIdxList (sample_parser 0) [1] s2 = Inr ([], s3))"
    by (insert c1 c4 c5(1) part3, rule exI[where x = ks], rule exI[where x = v1],
        rule exI[where x = ls], rule exI[where x = v2]) simp
  from w1 w2 w3 show ?thesis by (intro conjI)
qed


text \<open>
  Claim C8 as first stated fails. On the sample stream, with a parser that releases each
  frame at once, the first request for index 1 returns the frame of timestamp 1 and the
  second request for index 1 returns no frame.
\<close>

theorem repeated_request_counterexample:
  "(case GetFramesByIdxList (sample_parser 0) [1] (SeekUtils_new sample_demuxer sample_decoder) of
      Inl e \<Rightarrow> None
    | Inr (fs, s1) \<Rightarrow>
        (case GetFramesByIdxList (sample_parser 0) [1] s1 of
           Inl e \<Rightarrow> None
         | Inr (fs', s2) \<Rightarrow> Some (map timestamp fs, map timestamp fs')))
   = Some ([1], [])"
  by code_simp
end
